theory Spec2Isabelle
  imports Main "HOL-Library.AList" "HOL-Library.Multiset"
begin

section \<open>The research agent of \<^verbatim>\<open>src/agent.ts\<close>\<close>

text \<open>
  The control loop of \<^verbatim>\<open>getResponse\<close> is embedded as a function on an explicit
  state record that holds the local variables of \<^verbatim>\<open>getResponse\<close>. Every external call
  (the decision oracle, the evaluator, the failure analyser, the query rewriter, the
  deduplicator, the search adapter and the page reader) is answered from a record
  \<open>step_env\<close>, one per loop iteration, that holds what each call returns in that
  iteration, or that it throws. A run consumes a list of such records: the list is the
  script of the outside world, and a script that ends while the loop still wants to
  continue gives no result (\<open>None\<close>).

  Not modelled, because nothing in the control flow reads them: console output, the
  pacing \<^verbatim>\<open>sleep\<close>, the prompt text of \<^verbatim>\<open>getPrompt\<close>, \<^verbatim>\<open>storeContext\<close> (it catches its own
  errors), the action tracker and the module-level transcript \<^verbatim>\<open>allContext\<close>.
\<close>

subsection \<open>Data\<close>

record reference =
  exactQuote :: string
  ref_url :: string

text \<open>
  A parsed decision. The response schema requires \<^verbatim>\<open>action\<close> and \<^verbatim>\<open>thoughts\<close> only, so
  every other field may be absent (\<^verbatim>\<open>undefined\<close> in the source, \<open>None\<close> here).
\<close>

record step_action =
  action :: string
  thoughts :: string
  answer :: "string option"
  references :: "reference list option"
  questionsToAnswer :: "string list option"
  searchQuery :: "string option"
  URLTargets :: "string list option"

datatype knowledge_type = QA | URL

record knowledge =
  k_question :: string
  k_answer :: "string option"
  k_type :: knowledge_type

record bad_attempt =
  b_question :: string
  b_answer :: "string option"
  b_evaluation :: string
  b_recap :: string
  b_blame :: string
  b_improvement :: string

text \<open>
  A diary entry is one of the eleven text templates of the loop; the constructor names
  the template and carries the values the template interpolates, in the order of their
  first occurrence.
\<close>

datatype diary_entry =
    AnswerGoodEnough nat nat string "string option" string
  | AnswerFound nat string "string option" string
  | AnswerNoReferences nat string "string option"
  | AnswerBad nat string "string option" string
  | SubAnswerGood nat string "string option" string
  | ReflectNewGaps nat string "string list"
  | ReflectNothingNew nat string "string list"
  | SearchDone nat string "string list"
  | SearchNothingNew nat string "string list"
  | VisitDone nat "string list"
  | VisitNothingNew nat "string list"

record response_schema =
  action_enum :: "string list"
  properties :: "string list"
  required :: "string list"

datatype error =
    TokenBudgetExceeded nat nat
  | SyntaxError
  | OracleError
  | EvaluatorError
  | AnalyzerError
  | RewriterError
  | DedupError
  | SearchError
  | ReadError

subsection \<open>What the outside world returns\<close>

text \<open>
  The text of a model response is kept as the outcome of \<^verbatim>\<open>JSON.parse\<close> on it: \<open>None\<close>
  when the text is not JSON (the parse throws a SyntaxError), the decoded object
  otherwise. \<^verbatim>\<open>usageMetadata?.totalTokenCount\<close> may be absent.
\<close>

record oracle_response =
  totalTokenCount :: "nat option"
  parsed :: "step_action option"

record evaluation =
  is_definitive :: bool
  reasoning :: string

record evaluator_response =
  ev_totalTokenCount :: "nat option"
  ev_parsed :: "evaluation option"

record error_analysis =
  recap :: string
  blame :: string
  improvement :: string

record search_result =
  sr_title :: string
  sr_url :: string
  sr_description :: string

record read_response =
  data_url :: "string option"
  data_content :: "string option"
  tokens :: nat

text \<open>
  For every call, \<open>None\<close> is the call throwing. The search adapter and the reader are
  called several times in one iteration, so they are functions of the position of the
  call in the iteration and of its argument. The fetches of one \<^verbatim>\<open>visit\<close> are in flight
  together: \<open>latency env i u\<close> is the time that the fetch of \<open>u\<close>, issued at position
  \<open>i\<close>, takes to return or to throw.
\<close>

record step_env =
  generateContent :: "oracle_response option"
  evaluator :: "evaluator_response option"
  analyzeSteps :: "error_analysis option"
  rewriteQuery :: "string list option"
  dedupQueries :: "string list option"
  search :: "nat \<Rightarrow> string \<Rightarrow> search_result list option"
  readUrl :: "nat \<Rightarrow> string \<Rightarrow> read_response option"
  latency :: "nat \<Rightarrow> string \<Rightarrow> nat"

subsection \<open>The state of a run\<close>

record agent_state =
  totalUsage :: nat
  step :: nat
  totalStep :: nat
  badAttempts :: nat
  gaps :: "string list"
  allQuestions :: "string list"
  allKeywords :: "string list"
  allKnowledge :: "knowledge list"
  badContext :: "bad_attempt list"
  diaryContext :: "diary_entry list"
  allowAnswer :: bool
  allowSearch :: bool
  allowRead :: bool
  allowReflect :: bool
  thisStep :: step_action
  isAnswered :: bool
  allURLs :: "(string \<times> string) list"
  visitedURLs :: "string list"

text \<open>
  The parameters of \<^verbatim>\<open>getResponse\<close>. The token tracker (\<^verbatim>\<open>utils/token-tracker\<close>) is not
  among the sources, so what \<^verbatim>\<open>trackUsage\<close> does to the total that \<^verbatim>\<open>getTotalUsage\<close>
  returns is a parameter too: \<open>tracker cfg total n\<close> is the total after \<open>n\<close> tokens are
  booked on a tracker whose total was \<open>total\<close>.
\<close>

record config =
  question :: string
  tokenBudget :: nat
  maxBadAttempts :: nat
  tracker :: "nat \<Rightarrow> nat \<Rightarrow> nat"

text \<open>
  An iteration either reaches the end of the loop body or leaves the loop by \<^verbatim>\<open>break\<close>.
\<close>

datatype flow = Continue agent_state | Break agent_state

fun state_of :: "flow \<Rightarrow> agent_state" where
  "state_of (Continue s) = s"
| "state_of (Break s) = s"

record run_result =
  result :: step_action
  context_usage :: nat

subsection \<open>Helpers\<close>

definition trackUsage :: "config \<Rightarrow> nat \<Rightarrow> agent_state \<Rightarrow> agent_state" where
  "trackUsage cfg n s = s\<lparr>totalUsage := tracker cfg (totalUsage s) n\<rparr>"

text \<open>
  Modelled from the spec: \<^verbatim>\<open>utils/token-tracker\<close> is not among the sources. The spec's
  Budget State is a cumulative token usage counter: booking adds to the total.
\<close>

definition cumulative :: "nat \<Rightarrow> nat \<Rightarrow> nat" where
  "cumulative used n = used + n"

text \<open>\<^verbatim>\<open>usage?.totalTokenCount || 0\<close>\<close>

definition count_or_zero :: "nat option \<Rightarrow> nat" where
  "count_or_zero c = (case c of None \<Rightarrow> 0 | Some n \<Rightarrow> n)"

text \<open>\<^verbatim>\<open>Object.keys(allURLs)\<close>: the keys in insertion order.\<close>

definition object_keys :: "(string \<times> string) list \<Rightarrow> string list" where
  "object_keys m = map fst m"

text \<open>\<^verbatim>\<open>text.replace(/(\r\n|\n|\r)/gm, " ")\<close>\<close>

fun removeAllLineBreaks :: "string \<Rightarrow> string" where
  "removeAllLineBreaks [] = []"
| "removeAllLineBreaks [c] =
     (if c = CHR 0x0D \<or> c = CHR 0x0A then [CHR '' ''] else [c])"
| "removeAllLineBreaks (c # d # cs) =
     (if c = CHR 0x0D \<and> d = CHR 0x0A then CHR '' '' # removeAllLineBreaks cs
      else if c = CHR 0x0D \<or> c = CHR 0x0A then CHR '' '' # removeAllLineBreaks (d # cs)
      else c # removeAllLineBreaks (d # cs))"

text \<open>\<^verbatim>\<open>x || fallback\<close> on a string that may be absent: the empty string is falsy too.\<close>

definition or_else :: "string option \<Rightarrow> string \<Rightarrow> string" where
  "or_else x d = (case x of None \<Rightarrow> d | Some v \<Rightarrow> if v = [] then d else v)"

subsection \<open>\<^verbatim>\<open>getSchema\<close>\<close>

definition getSchema :: "bool \<Rightarrow> bool \<Rightarrow> bool \<Rightarrow> bool \<Rightarrow> response_schema" where
  "getSchema allowReflect' allowRead' allowAnswer' allowSearch' =
     \<lparr>action_enum =
        (if allowSearch' then [''search''] else []) @
        (if allowAnswer' then [''answer''] else []) @
        (if allowReflect' then [''reflect''] else []) @
        (if allowRead' then [''visit''] else []),
      properties =
        [''action'', ''thoughts''] @
        (if allowSearch' then [''searchQuery''] else []) @
        (if allowAnswer' then [''answer'', ''references''] else []) @
        (if allowReflect' then [''questionsToAnswer''] else []) @
        (if allowRead' then [''URLTargets''] else []),
      required = [''action'', ''thoughts'']\<rparr>"

subsection \<open>The head of an iteration\<close>

text \<open>
  Lines 319 to 329: both counters advance, the front of the gap queue is taken as the
  current question (the original question when the queue is empty), and the toggles are
  narrowed by the size of the queue and of the frontier.
\<close>

definition currentQuestion :: "config \<Rightarrow> agent_state \<Rightarrow> string" where
  "currentQuestion cfg s = (case gaps s of [] \<Rightarrow> question cfg | g # _ \<Rightarrow> g)"

definition begin_step :: "agent_state \<Rightarrow> agent_state" where
  "begin_step s =
     s\<lparr>step := step s + 1,
       totalStep := totalStep s + 1,
       allowReflect := (allowReflect s \<and> length (gaps s) \<le> 1),
       gaps := (case gaps s of [] \<Rightarrow> [] | _ # gs \<Rightarrow> gs),
       allowRead := (allowRead s \<and> length (object_keys (allURLs s)) > 0),
       allowSearch := (allowSearch s \<and> length (object_keys (allURLs s)) < 20)\<rparr>"

text \<open>The schema that goes out with the request of an iteration that starts in \<open>s\<close>.\<close>

definition request_schema :: "agent_state \<Rightarrow> response_schema" where
  "request_schema s =
     (let s1 = begin_step s
      in getSchema (allowReflect s1) (allowRead s1) (allowAnswer s1) (allowSearch s1))"

text \<open>
  Lines 355 to 378: the pre-flight budget check, the oracle call, the usage it reports,
  \<^verbatim>\<open>JSON.parse\<close>, and the reset of the four toggles.
\<close>

definition estimatedTokens :: nat where
  "estimatedTokens = 50"

definition ask_oracle :: "config \<Rightarrow> step_env \<Rightarrow> agent_state \<Rightarrow> error + agent_state" where
  "ask_oracle cfg env s =
     (if totalUsage s + estimatedTokens > tokenBudget cfg
      then Inl (TokenBudgetExceeded (totalUsage s + estimatedTokens) (tokenBudget cfg))
      else case generateContent env of
        None \<Rightarrow> Inl OracleError
      | Some r \<Rightarrow>
          (case parsed r of
            None \<Rightarrow> Inl SyntaxError
          | Some d \<Rightarrow>
              Inr ((trackUsage cfg (count_or_zero (totalTokenCount r)) s)
                    \<lparr>thisStep := d,
                     allowAnswer := True,
                     allowReflect := True,
                     allowRead := True,
                     allowSearch := True\<rparr>)))"

subsection \<open>The \<^verbatim>\<open>answer\<close> action\<close>

text \<open>
  \<^verbatim>\<open>evaluateAnswer\<close>: the model call may throw, its usage is tracked, and the parse of
  its text may throw.
\<close>

definition evaluateAnswer ::
  "config \<Rightarrow> step_env \<Rightarrow> agent_state \<Rightarrow> error + (evaluation \<times> agent_state)" where
  "evaluateAnswer cfg env s =
     (case evaluator env of
        None \<Rightarrow> Inl EvaluatorError
      | Some r \<Rightarrow>
          (case ev_parsed r of
            None \<Rightarrow> Inl SyntaxError
          | Some ev \<Rightarrow> Inr (ev, trackUsage cfg (count_or_zero (ev_totalTokenCount r)) s)))"

text \<open>\<^verbatim>\<open>thisStep.references?.length > 0\<close>\<close>

definition has_references :: "step_action \<Rightarrow> bool" where
  "has_references d = (case references d of None \<Rightarrow> False | Some rs \<Rightarrow> length rs > 0)"

definition do_answer :: "config \<Rightarrow> step_env \<Rightarrow> string \<Rightarrow> agent_state \<Rightarrow> error + flow" where
  "do_answer cfg env cq s0 =
     (case evaluateAnswer cfg env s0 of
        Inl e \<Rightarrow> Inl e
      | Inr (ev, s) \<Rightarrow>
          if cq = question cfg then
            if badAttempts s \<ge> maxBadAttempts cfg then
              Inr (Break (s\<lparr>diaryContext := diaryContext s @
                              [AnswerGoodEnough (step s) (badAttempts s) cq (answer (thisStep s)) (reasoning ev)],
                            isAnswered := False\<rparr>))
            else if is_definitive ev then
              if has_references (thisStep s) \<or> length (object_keys (allURLs s)) = 0 then
                Inr (Break (s\<lparr>diaryContext := diaryContext s @
                                [AnswerFound (step s) cq (answer (thisStep s)) (reasoning ev)],
                              isAnswered := True\<rparr>))
              else
                Inr (Break (s\<lparr>diaryContext := diaryContext s @
                                [AnswerNoReferences (step s) cq (answer (thisStep s))],
                              isAnswered := True\<rparr>))
            else
              (case analyzeSteps env of
                 None \<Rightarrow> Inl AnalyzerError
               | Some a \<Rightarrow>
                   Inr (Continue (s\<lparr>badContext := badContext s @
                                      [\<lparr>b_question = cq, b_answer = answer (thisStep s),
                                        b_evaluation = reasoning ev, b_recap = recap a,
                                        b_blame = blame a, b_improvement = improvement a\<rparr>],
                                    badAttempts := badAttempts s + 1,
                                    allowAnswer := False,
                                    diaryContext := [],
                                    step := 0\<rparr>)))
          else if is_definitive ev then
            Inr (Continue (s\<lparr>diaryContext := diaryContext s @
                               [SubAnswerGood (step s) cq (answer (thisStep s)) (reasoning ev)],
                             allKnowledge := allKnowledge s @
                               [\<lparr>k_question = cq, k_answer = answer (thisStep s), k_type = QA\<rparr>]\<rparr>))
          else Inr (Continue s))"

subsection \<open>The \<^verbatim>\<open>reflect\<close> action\<close>

text \<open>
  \<^verbatim>\<open>if (history.length) candidates = (await dedupQueries(candidates, history)).unique_queries\<close>:
  the deduplicator is asked only when there is a history, and what it returns is taken
  as it is.
\<close>

definition dedup_against :: "string list \<Rightarrow> step_env \<Rightarrow> string list \<Rightarrow> string list option" where
  "dedup_against history env candidates =
     (if history \<noteq> [] then dedupQueries env else Some candidates)"

definition do_reflect :: "config \<Rightarrow> step_env \<Rightarrow> string \<Rightarrow> string list \<Rightarrow> agent_state \<Rightarrow> error + flow" where
  "do_reflect cfg env cq oldQuestions s =
     (case dedup_against (allQuestions s) env oldQuestions of
        None \<Rightarrow> Inl DedupError
      | Some newGapQuestions \<Rightarrow>
          if length newGapQuestions > 0 then
            Inr (Continue (s\<lparr>diaryContext := diaryContext s @
                               [ReflectNewGaps (step s) cq newGapQuestions],
                             gaps := gaps s @ newGapQuestions @ [question cfg],
                             allQuestions := allQuestions s @ newGapQuestions\<rparr>))
          else
            Inr (Continue (s\<lparr>diaryContext := diaryContext s @
                               [ReflectNothingNew (step s) cq oldQuestions],
                             allowReflect := False\<rparr>)))"

subsection \<open>The \<^verbatim>\<open>search\<close> action\<close>

text \<open>
  One adapter call per keyword, in order; every returned pair is written into the
  frontier under its url, and the keyword joins the keyword history.
\<close>

definition merge_results :: "search_result list \<Rightarrow> (string \<times> string) list \<Rightarrow> (string \<times> string) list" where
  "merge_results rs m = foldl (\<lambda>m r. AList.update (sr_url r) (sr_title r) m) m rs"

fun search_all :: "step_env \<Rightarrow> nat \<Rightarrow> string list \<Rightarrow> agent_state \<Rightarrow> error + agent_state" where
  "search_all env i [] s = Inr s"
| "search_all env i (query # qs) s =
     (case search env i query of
        None \<Rightarrow> Inl SearchError
      | Some rs \<Rightarrow>
          search_all env (Suc i) qs
            (s\<lparr>allURLs := merge_results rs (allURLs s),
               allKeywords := allKeywords s @ [query]\<rparr>))"

text \<open>
  The urls that the adapter calls of \<open>search_all\<close> return: no call is made after one
  that throws.
\<close>

fun returned_urls :: "step_env \<Rightarrow> nat \<Rightarrow> string list \<Rightarrow> string list" where
  "returned_urls env i [] = []"
| "returned_urls env i (query # qs) =
     (case search env i query of
        None \<Rightarrow> []
      | Some rs \<Rightarrow> map sr_url rs @ returned_urls env (Suc i) qs)"

definition do_search :: "step_env \<Rightarrow> string \<Rightarrow> agent_state \<Rightarrow> error + flow" where
  "do_search env cq s =
     (case rewriteQuery env of
        None \<Rightarrow> Inl RewriterError
      | Some oldKeywords \<Rightarrow>
          (case dedup_against (allKeywords s) env oldKeywords of
             None \<Rightarrow> Inl DedupError
           | Some keywordsQueries \<Rightarrow>
               if length keywordsQueries > 0 then
                 (case search_all env 0 keywordsQueries s of
                    Inl e \<Rightarrow> Inl e
                  | Inr s' \<Rightarrow>
                      Inr (Continue (s'\<lparr>diaryContext := diaryContext s' @
                                          [SearchDone (step s') cq keywordsQueries]\<rparr>)))
               else
                 Inr (Continue (s\<lparr>diaryContext := diaryContext s @
                                    [SearchNothingNew (step s) cq oldKeywords],
                                  allowSearch := False\<rparr>))))"

subsection \<open>The \<^verbatim>\<open>visit\<close> action\<close>

text \<open>
  Modelled from the spec: \<^verbatim>\<open>tools/read\<close> is not among the sources. The fetch adapter
  returns the url and the extracted content plus a resource-usage cost; the cost is
  booked on the tracker that the call is given.

  \<^verbatim>\<open>Promise.all(uniqueURLs.map(async (url) => ...))\<close> starts every callback at once:
  each runs up to its \<^verbatim>\<open>await readUrl\<close>, so all fetches are issued, in the order of the
  request, before any of them returns (\<open>issued\<close>). The rest of a callback (the pushes on
  \<^verbatim>\<open>allKnowledge\<close> and \<^verbatim>\<open>visitedURLs\<close>, the delete from \<^verbatim>\<open>allURLs\<close>) runs when its fetch
  returns, so the callbacks finish in the order in which the fetches complete: by
  latency, fetches of equal latency in the order of issue (\<open>completion_order\<close>). A fetch
  that throws rejects \<^verbatim>\<open>Promise.all\<close>, and with it the iteration; \<^verbatim>\<open>Promise.all\<close> resolves,
  and the loop goes on, only when every fetch has returned.
\<close>

definition read_one :: "config \<Rightarrow> string \<Rightarrow> read_response \<Rightarrow> agent_state \<Rightarrow> agent_state" where
  "read_one cfg url' r s =
     (trackUsage cfg (tokens r) s)
       \<lparr>allKnowledge := allKnowledge s @
          [\<lparr>k_question = ''What is in '' @ or_else (data_url r) ''the URL'' @ ''?'',
            k_answer = Some (removeAllLineBreaks (or_else (data_content r) ''No content available'')),
            k_type = URL\<rparr>],
        visitedURLs := visitedURLs s @ [url'],
        allURLs := AList.delete url' (allURLs s)\<rparr>"

definition issued :: "string list \<Rightarrow> (nat \<times> string) list" where
  "issued urls = List.enumerate 0 urls"

definition completion_order :: "step_env \<Rightarrow> string list \<Rightarrow> (nat \<times> string) list" where
  "completion_order env urls = sort_key (\<lambda>p. latency env (fst p) (snd p)) (issued urls)"

fun complete_all ::
  "config \<Rightarrow> step_env \<Rightarrow> (nat \<times> string) list \<Rightarrow> agent_state \<Rightarrow> error + agent_state" where
  "complete_all cfg env [] s = Inr s"
| "complete_all cfg env (p # ps) s =
     (case readUrl env (fst p) (snd p) of
        None \<Rightarrow> Inl ReadError
      | Some r \<Rightarrow> complete_all cfg env ps (read_one cfg (snd p) r s))"

definition visit_all ::
  "config \<Rightarrow> step_env \<Rightarrow> string list \<Rightarrow> agent_state \<Rightarrow> error + agent_state" where
  "visit_all cfg env urls s = complete_all cfg env (completion_order env urls) s"

definition uniqueURLs :: "string list \<Rightarrow> agent_state \<Rightarrow> string list" where
  "uniqueURLs targets s =
     (if length (visitedURLs s) > 0
      then filter (\<lambda>u. u \<notin> set (visitedURLs s)) targets
      else targets)"

definition do_visit :: "config \<Rightarrow> step_env \<Rightarrow> string list \<Rightarrow> agent_state \<Rightarrow> error + flow" where
  "do_visit cfg env targets s =
     (if length (uniqueURLs targets s) > 0 then
        (case visit_all cfg env (uniqueURLs targets s) s of
           Inl e \<Rightarrow> Inl e
         | Inr s' \<Rightarrow>
             Inr (Continue (s'\<lparr>diaryContext := diaryContext s' @ [VisitDone (step s') targets]\<rparr>)))
      else
        Inr (Continue (s\<lparr>diaryContext := diaryContext s @ [VisitNothingNew (step s) targets],
                         allowRead := False\<rparr>)))"

subsection \<open>One iteration of the loop\<close>

text \<open>
  The dispatch of lines 381 to 648. A decision that matches none of the four guarded
  branches falls through the chain and the iteration ends with nothing done.
\<close>

definition execute :: "config \<Rightarrow> step_env \<Rightarrow> string \<Rightarrow> agent_state \<Rightarrow> error + flow" where
  "execute cfg env cq s =
     (if action (thisStep s) = ''answer'' then do_answer cfg env cq s
      else if action (thisStep s) = ''reflect'' \<and> questionsToAnswer (thisStep s) \<noteq> None then
        do_reflect cfg env cq (the (questionsToAnswer (thisStep s))) s
      else if action (thisStep s) = ''search'' \<and> searchQuery (thisStep s) \<noteq> None \<and>
              searchQuery (thisStep s) \<noteq> Some [] then
        do_search env cq s
      else if action (thisStep s) = ''visit'' \<and> URLTargets (thisStep s) \<noteq> None \<and>
              URLTargets (thisStep s) \<noteq> Some [] then
        do_visit cfg env (the (URLTargets (thisStep s))) s
      else Inr (Continue s))"

definition iteration :: "config \<Rightarrow> step_env \<Rightarrow> agent_state \<Rightarrow> error + flow" where
  "iteration cfg env s =
     (case ask_oracle cfg env (begin_step s) of
        Inl e \<Rightarrow> Inl e
      | Inr s' \<Rightarrow> execute cfg env (currentQuestion cfg s) s')"

subsection \<open>The loop and the run\<close>

definition loop_condition :: "config \<Rightarrow> agent_state \<Rightarrow> bool" where
  "loop_condition cfg s = (totalUsage s < tokenBudget cfg \<and> badAttempts s \<le> maxBadAttempts cfg)"

text \<open>
  The \<^verbatim>\<open>while\<close> loop on a script of the outside world. \<open>None\<close>: the script ended while
  the loop condition still held. \<open>Some (Inl e)\<close>: an iteration threw \<open>e\<close>.
  \<open>Some (Inr s)\<close>: the loop was left, by its condition or by \<^verbatim>\<open>break\<close>, in state \<open>s\<close>.
\<close>

fun loop :: "config \<Rightarrow> step_env list \<Rightarrow> agent_state \<Rightarrow> (error + agent_state) option" where
  "loop cfg [] s = (if loop_condition cfg s then None else Some (Inr s))"
| "loop cfg (env # envs) s =
     (if loop_condition cfg s then
        (case iteration cfg env s of
           Inl e \<Rightarrow> Some (Inl e)
         | Inr (Break s') \<Rightarrow> Some (Inr s')
         | Inr (Continue s') \<Rightarrow> loop cfg envs s')
      else Some (Inr s))"

text \<open>
  The states at the step boundaries of a run on a script: the state before each
  iteration that runs, and the state after the last one.
\<close>

fun boundaries :: "config \<Rightarrow> step_env list \<Rightarrow> agent_state \<Rightarrow> agent_state list" where
  "boundaries cfg [] s = [s]"
| "boundaries cfg (env # envs) s =
     (if loop_condition cfg s then
        (case iteration cfg env s of
           Inl e \<Rightarrow> [s]
         | Inr (Break s') \<Rightarrow> [s, s']
         | Inr (Continue s') \<Rightarrow> s # boundaries cfg envs s')
      else [s])"

definition initial_state :: "config \<Rightarrow> nat option \<Rightarrow> agent_state" where
  "initial_state cfg existingUsage =
     \<lparr>totalUsage = (case existingUsage of None \<Rightarrow> 0 | Some u \<Rightarrow> u),
      step = 0, totalStep = 0, badAttempts = 0,
      gaps = [question cfg],
      allQuestions = [question cfg],
      allKeywords = [],
      allKnowledge = [],
      badContext = [],
      diaryContext = [],
      allowAnswer = True, allowSearch = True, allowRead = True, allowReflect = True,
      thisStep = \<lparr>action = ''answer'', thoughts = [], answer = Some [],
                  references = Some [], questionsToAnswer = None, searchQuery = None,
                  URLTargets = None\<rparr>,
      isAnswered = False,
      allURLs = [],
      visitedURLs = []\<rparr>"

text \<open>
  Lines 652 to 698, in the state \<open>s\<close> the loop was left in: an accepted answer is
  returned; otherwise beast mode builds its schema from the \<^verbatim>\<open>allowAnswer\<close> variable,
  repeats the pre-flight budget check, calls the oracle and returns the parsed decision.
\<close>

definition beast_schema :: "agent_state \<Rightarrow> response_schema" where
  "beast_schema s = getSchema False False (allowAnswer s) False"

definition finish :: "config \<Rightarrow> step_env \<Rightarrow> agent_state \<Rightarrow> error + run_result" where
  "finish cfg beast s0 =
     (let s = s0\<lparr>step := step s0 + 1, totalStep := totalStep s0 + 1\<rparr> in
      if isAnswered s then Inr \<lparr>result = thisStep s, context_usage = totalUsage s\<rparr>
      else if totalUsage s + estimatedTokens > tokenBudget cfg
      then Inl (TokenBudgetExceeded (totalUsage s + estimatedTokens) (tokenBudget cfg))
      else case generateContent beast of
        None \<Rightarrow> Inl OracleError
      | Some r \<Rightarrow>
          (case parsed r of
            None \<Rightarrow> Inl SyntaxError
          | Some d \<Rightarrow>
              Inr \<lparr>result = d,
                   context_usage = tracker cfg (totalUsage s) (count_or_zero (totalTokenCount r))\<rparr>))"

text \<open>
  \<^verbatim>\<open>getResponse\<close>: \<open>envs\<close> answers the iterations of the loop, \<open>beast\<close> the beast-mode
  request, \<open>existingUsage\<close> is the usage of a token tracker handed in by the caller.
\<close>

definition getResponse ::
  "config \<Rightarrow> nat option \<Rightarrow> step_env list \<Rightarrow> step_env \<Rightarrow> (error + run_result) option" where
  "getResponse cfg existingUsage envs beast =
     (case loop cfg envs (initial_state cfg existingUsage) of
        None \<Rightarrow> None
      | Some (Inl e) \<Rightarrow> Some (Inl e)
      | Some (Inr s) \<Rightarrow> Some (finish cfg beast s))"

subsection \<open>What a script says\<close>

text \<open>The decision the oracle returns in an iteration, and the evaluator's verdict.\<close>

definition decision :: "step_env \<Rightarrow> step_action option" where
  "decision env = (case generateContent env of None \<Rightarrow> None | Some r \<Rightarrow> parsed r)"

text \<open>The token count that is booked for the oracle's response.\<close>

definition oracle_tokens :: "step_env \<Rightarrow> nat" where
  "oracle_tokens env =
     (case generateContent env of None \<Rightarrow> 0 | Some r \<Rightarrow> count_or_zero (totalTokenCount r))"

definition verdict :: "step_env \<Rightarrow> evaluation option" where
  "verdict env = (case evaluator env of None \<Rightarrow> None | Some r \<Rightarrow> ev_parsed r)"

definition evaluator_tokens :: "step_env \<Rightarrow> nat" where
  "evaluator_tokens env =
     (case evaluator env of None \<Rightarrow> 0 | Some r \<Rightarrow> count_or_zero (ev_totalTokenCount r))"

text \<open>
  The state in which the dispatch starts when the budget check passes and the oracle
  returns the decision \<open>d\<close>.
\<close>

definition after_oracle :: "config \<Rightarrow> step_env \<Rightarrow> step_action \<Rightarrow> agent_state \<Rightarrow> agent_state" where
  "after_oracle cfg env d s =
     (trackUsage cfg (oracle_tokens env) (begin_step s))
       \<lparr>thisStep := d, allowAnswer := True, allowReflect := True,
        allowRead := True, allowSearch := True\<rparr>"

text \<open>The state after an iteration that did not throw.\<close>

definition after :: "config \<Rightarrow> step_env \<Rightarrow> agent_state \<Rightarrow> agent_state option" where
  "after cfg env s = (case iteration cfg env s of Inl _ \<Rightarrow> None | Inr f \<Rightarrow> Some (state_of f))"

text \<open>
  The urls that the search adapter returns in an iteration that starts in \<open>s\<close>: those of
  the calls for the keywords that survive deduplication, when the decision is a
  \<^verbatim>\<open>search\<close> with a query, and none otherwise.
\<close>

definition search_returns :: "step_env \<Rightarrow> step_action \<Rightarrow> string list \<Rightarrow> string list" where
  "search_returns env d history =
     (if action d = ''search'' \<and> searchQuery d \<noteq> None \<and> searchQuery d \<noteq> Some [] then
        (case rewriteQuery env of
           None \<Rightarrow> []
         | Some oldKeywords \<Rightarrow>
             (case dedup_against history env oldKeywords of
                None \<Rightarrow> []
              | Some keywordsQueries \<Rightarrow> returned_urls env 0 keywordsQueries))
      else [])"

definition step_returns :: "step_env \<Rightarrow> agent_state \<Rightarrow> string list" where
  "step_returns env s =
     (case decision env of
        None \<Rightarrow> []
      | Some d \<Rightarrow> search_returns env d (allKeywords s))"

text \<open>The frontier is disjoint from the visited list.\<close>

definition frontier_disjoint :: "agent_state \<Rightarrow> bool" where
  "frontier_disjoint s = (set (object_keys (allURLs s)) \<inter> set (visitedURLs s) = {})"

text \<open>
  The retry bookkeeping: one bad-attempt record per counted attempt, and the count
  within its ceiling.
\<close>

definition attempts_bounded :: "config \<Rightarrow> agent_state \<Rightarrow> bool" where
  "attempts_bounded cfg s =
     (length (badContext s) = badAttempts s \<and> badAttempts s \<le> maxBadAttempts cfg)"

subsection \<open>Example scripts\<close>

definition example_config :: "nat \<Rightarrow> nat \<Rightarrow> config" where
  "example_config budget attempts =
     \<lparr>question = ''q'', tokenBudget = budget, maxBadAttempts = attempts, tracker = cumulative\<rparr>"

definition decide :: "string \<Rightarrow> step_action" where
  "decide a =
     \<lparr>action = a, thoughts = [], answer = None, references = None,
      questionsToAnswer = None, searchQuery = None, URLTargets = None\<rparr>"

text \<open>An iteration in which every call throws, to be updated call by call.\<close>

definition all_fail :: step_env where
  "all_fail =
     \<lparr>generateContent = None, evaluator = None, analyzeSteps = None, rewriteQuery = None,
      dedupQueries = None, search = (\<lambda>_ _. None), readUrl = (\<lambda>_ _. None),
      latency = (\<lambda>_ _. 0)\<rparr>"

definition oracle_says :: "nat \<Rightarrow> step_action \<Rightarrow> step_env" where
  "oracle_says n d = all_fail\<lparr>generateContent := Some \<lparr>totalTokenCount = Some n, parsed = Some d\<rparr>\<rparr>"

definition judged :: "nat \<Rightarrow> bool \<Rightarrow> step_env \<Rightarrow> step_env" where
  "judged n ok env =
     env\<lparr>evaluator := Some \<lparr>ev_totalTokenCount = Some n,
                             ev_parsed = Some \<lparr>is_definitive = ok, reasoning = ''r''\<rparr>\<rparr>,
         analyzeSteps := Some \<lparr>recap = ''c'', blame = ''b'', improvement = ''i''\<rparr>\<rparr>"

text \<open>An iteration in which the oracle's text is not JSON.\<close>

definition says_garbage :: "nat \<Rightarrow> step_env" where
  "says_garbage n = all_fail\<lparr>generateContent := Some \<lparr>totalTokenCount = Some n, parsed = None\<rparr>\<rparr>"

definition says_answer :: "nat \<Rightarrow> string \<Rightarrow> step_env" where
  "says_answer n a = oracle_says n ((decide ''answer'')\<lparr>answer := Some a\<rparr>)"

definition says_reflect :: "nat \<Rightarrow> string list \<Rightarrow> string list \<Rightarrow> step_env" where
  "says_reflect n qs survivors =
     (oracle_says n ((decide ''reflect'')\<lparr>questionsToAnswer := Some qs\<rparr>))
       \<lparr>dedupQueries := Some survivors\<rparr>"

definition found :: "string \<Rightarrow> search_result" where
  "found u = \<lparr>sr_title = ''t'', sr_url = u, sr_description = ''d''\<rparr>"

definition says_search :: "string \<Rightarrow> string \<Rightarrow> step_env" where
  "says_search k u =
     (oracle_says 0 ((decide ''search'')\<lparr>searchQuery := Some k\<rparr>))
       \<lparr>rewriteQuery := Some [k], dedupQueries := Some [k],
        search := (\<lambda>_ _. Some [found u])\<rparr>"

definition page :: "string \<Rightarrow> read_response" where
  "page u = \<lparr>data_url = Some u, data_content = Some ''c'', tokens = 0\<rparr>"

text \<open>A visit in which the reader throws on the urls of \<open>broken\<close>.\<close>

definition says_visit :: "string list \<Rightarrow> string list \<Rightarrow> step_env" where
  "says_visit targets broken =
     (oracle_says 0 ((decide ''visit'')\<lparr>URLTargets := Some targets\<rparr>))
       \<lparr>readUrl := (\<lambda>_ u. if u \<in> set broken then None else Some (page u))\<rparr>"

text \<open>The same iteration with the fetches of the urls of \<open>slow\<close> returning last.\<close>

definition delayed :: "string list \<Rightarrow> step_env \<Rightarrow> step_env" where
  "delayed slow env = env\<lparr>latency := (\<lambda>_ u. if u \<in> set slow then 1 else 0)\<rparr>"

text \<open>Observations on a run.\<close>

definition frontier_and_visited :: "agent_state \<Rightarrow> string list \<times> string list" where
  "frontier_and_visited s = (object_keys (allURLs s), visitedURLs s)"

definition state_after :: "config \<Rightarrow> step_env list \<Rightarrow> agent_state" where
  "state_after cfg envs = last (boundaries cfg envs (initial_state cfg None))"

definition exit_state :: "config \<Rightarrow> nat option \<Rightarrow> step_env list \<Rightarrow> agent_state option" where
  "exit_state cfg existingUsage envs =
     (case loop cfg envs (initial_state cfg existingUsage) of
        Some (Inr s) \<Rightarrow> Some s
      | _ \<Rightarrow> None)"


section \<open>Lemmas about one iteration\<close>

lemmas run_defs = iteration_def ask_oracle_def begin_step_def execute_def do_answer_def
  do_reflect_def do_search_def do_visit_def evaluateAnswer_def trackUsage_def
  count_or_zero_def object_keys_def has_references_def dedup_against_def merge_results_def
  read_one_def uniqueURLs_def currentQuestion_def loop_condition_def initial_state_def
  estimatedTokens_def finish_def getResponse_def decision_def verdict_def
  example_config_def decide_def all_fail_def oracle_says_def judged_def cumulative_def
  says_garbage_def says_answer_def says_reflect_def says_search_def says_visit_def found_def page_def
  frontier_and_visited_def exit_state_def state_after_def or_else_def after_def
  issued_def completion_order_def visit_all_def delayed_def step_returns_def
  search_returns_def

lemma ask_oracle_ok:
  assumes "totalUsage s + estimatedTokens \<le> tokenBudget cfg" "decision env = Some d"
  shows "ask_oracle cfg env (begin_step s) = Inr (after_oracle cfg env d s)"
  using assms
  by (auto simp: ask_oracle_def decision_def begin_step_def oracle_tokens_def after_oracle_def split: option.splits)

lemma ask_oracle_Inr:
  assumes "ask_oracle cfg env (begin_step s) = Inr s'"
  shows "totalUsage s + estimatedTokens \<le> tokenBudget cfg \<and> (\<exists>d. decision env = Some d \<and> s' = after_oracle cfg env d s)"
  using assms
  by (auto simp: ask_oracle_def decision_def begin_step_def oracle_tokens_def after_oracle_def split: option.splits if_splits)

lemma iteration_ok:
  assumes "totalUsage s + estimatedTokens \<le> tokenBudget cfg" "decision env = Some d"
  shows "iteration cfg env s = execute cfg env (currentQuestion cfg s) (after_oracle cfg env d s)"
  by (simp add: iteration_def ask_oracle_ok[OF assms])

lemma iteration_Inr:
  assumes "iteration cfg env s = Inr f"
  shows "totalUsage s + estimatedTokens \<le> tokenBudget cfg \<and> (\<exists>d. decision env = Some d \<and> execute cfg env (currentQuestion cfg s) (after_oracle cfg env d s) = Inr f)"
  using assms ask_oracle_Inr[of cfg env s]
  by (auto simp: iteration_def split: sum.splits)

lemma after_oracle_fields [simp]:
  "badAttempts (after_oracle cfg env d s) = badAttempts s"
  "badContext (after_oracle cfg env d s) = badContext s"
  "visitedURLs (after_oracle cfg env d s) = visitedURLs s"
  "allURLs (after_oracle cfg env d s) = allURLs s"
  "allKnowledge (after_oracle cfg env d s) = allKnowledge s"
  "allQuestions (after_oracle cfg env d s) = allQuestions s"
  "allKeywords (after_oracle cfg env d s) = allKeywords s"
  "thisStep (after_oracle cfg env d s) = d"
  "allowAnswer (after_oracle cfg env d s)"
  "allowReflect (after_oracle cfg env d s)"
  "allowRead (after_oracle cfg env d s)"
  "allowSearch (after_oracle cfg env d s)"
  "isAnswered (after_oracle cfg env d s) = isAnswered s"
  "totalStep (after_oracle cfg env d s) = totalStep s + 1"
  "step (after_oracle cfg env d s) = step s + 1"
  "gaps (after_oracle cfg env d s) = (case gaps s of [] \<Rightarrow> [] | _ # gs \<Rightarrow> gs)"
  "diaryContext (after_oracle cfg env d s) = diaryContext s"
  by (simp_all add: after_oracle_def trackUsage_def begin_step_def)

lemma search_all_fields:
  "search_all env i qs s = Inr s' \<Longrightarrow>
     badAttempts s' = badAttempts s \<and> badContext s' = badContext s \<and>
     visitedURLs s' = visitedURLs s \<and> allowAnswer s' = allowAnswer s \<and>
     allowReflect s' = allowReflect s \<and> allowRead s' = allowRead s \<and>
     allowSearch s' = allowSearch s \<and> isAnswered s' = isAnswered s \<and> gaps s' = gaps s
     \<and> allKnowledge s' = allKnowledge s"
proof (induction qs arbitrary: i s)
  case Nil
  then show ?case by simp
next
  case (Cons q qs)
  from Cons.prems obtain rs where rs: "search env i q = Some rs"
    and rest: "search_all env (Suc i) qs (s\<lparr>allURLs := merge_results rs (allURLs s),
               allKeywords := allKeywords s @ [q]\<rparr>) = Inr s'"
    by (simp split: option.splits)
  from Cons.IH[OF rest] show ?case by simp
qed

lemma read_one_fields [simp]:
  "badAttempts (read_one cfg u r s) = badAttempts s"
  "badContext (read_one cfg u r s) = badContext s"
  "allowAnswer (read_one cfg u r s) = allowAnswer s"
  "allowReflect (read_one cfg u r s) = allowReflect s"
  "allowRead (read_one cfg u r s) = allowRead s"
  "allowSearch (read_one cfg u r s) = allowSearch s"
  "isAnswered (read_one cfg u r s) = isAnswered s"
  "gaps (read_one cfg u r s) = gaps s"
  "visitedURLs (read_one cfg u r s) = visitedURLs s @ [u]"
  "allURLs (read_one cfg u r s) = AList.delete u (allURLs s)"
  "length (allKnowledge (read_one cfg u r s)) = Suc (length (allKnowledge s))"
  by (simp_all add: read_one_def trackUsage_def)

lemma complete_all_fields:
  "complete_all cfg env ps s = Inr s' \<Longrightarrow>
     badAttempts s' = badAttempts s \<and> badContext s' = badContext s \<and>
     allowAnswer s' = allowAnswer s \<and>
     allowReflect s' = allowReflect s \<and> allowRead s' = allowRead s \<and>
     allowSearch s' = allowSearch s \<and> isAnswered s' = isAnswered s \<and> gaps s' = gaps s"
proof (induction ps arbitrary: s)
  case Nil
  then show ?case by simp
next
  case (Cons p ps)
  from Cons.prems obtain r where r: "readUrl env (fst p) (snd p) = Some r"
    and rest: "complete_all cfg env ps (read_one cfg (snd p) r s) = Inr s'"
    by (simp split: option.splits)
  from Cons.IH[OF rest] show ?case by simp
qed

lemma complete_all_visited:
  "complete_all cfg env ps s = Inr s' \<Longrightarrow>
     visitedURLs s' = visitedURLs s @ map snd ps \<and>
     set (object_keys (allURLs s')) = set (object_keys (allURLs s)) - set (map snd ps) \<and>
     length (allKnowledge s') = length (allKnowledge s) + length ps"
proof (induction ps arbitrary: s)
  case Nil
  then show ?case by simp
next
  case (Cons p ps)
  from Cons.prems obtain r where r: "readUrl env (fst p) (snd p) = Some r"
    and rest: "complete_all cfg env ps (read_one cfg (snd p) r s) = Inr s'"
    by (simp split: option.splits)
  have keys: "set (object_keys (allURLs (read_one cfg (snd p) r s))) =
      set (object_keys (allURLs s)) - {snd p}"
    by (simp add: object_keys_def delete_keys)
  have "visitedURLs s' = visitedURLs s @ map snd (p # ps)"
    using Cons.IH[OF rest] by simp
  moreover have "set (object_keys (allURLs s')) =
      set (object_keys (allURLs s)) - set (map snd (p # ps))"
    using Cons.IH[OF rest] keys by auto
  moreover have "length (allKnowledge s') = length (allKnowledge s) + length (p # ps)"
    using Cons.IH[OF rest] by simp
  ultimately show ?case by simp
qed

lemma complete_all_knowledge:
  "complete_all cfg env ps s = Inr s' \<Longrightarrow>
     \<exists>ks. allKnowledge s' = allKnowledge s @ ks \<and> map k_type ks = replicate (length ps) URL"
proof (induction ps arbitrary: s)
  case Nil
  then show ?case by simp
next
  case (Cons p ps)
  from Cons.prems obtain r where r: "readUrl env (fst p) (snd p) = Some r"
    and rest: "complete_all cfg env ps (read_one cfg (snd p) r s) = Inr s'"
    by (simp split: option.splits)
  obtain k where k: "allKnowledge (read_one cfg (snd p) r s) = allKnowledge s @ [k]" "k_type k = URL"
    by (simp add: read_one_def trackUsage_def)
  from Cons.IH[OF rest] obtain ks where
    ks: "allKnowledge s' = allKnowledge (read_one cfg (snd p) r s) @ ks"
     "map k_type ks = replicate (length ps) URL" by blast
  have "allKnowledge s' = allKnowledge s @ (k # ks)" using k ks by simp
  moreover have "map k_type (k # ks) = replicate (length (p # ps)) URL" using k ks by simp
  ultimately show ?case by blast
qed

lemma complete_all_fail:
  "p \<in> set ps \<Longrightarrow> readUrl env (fst p) (snd p) = None \<Longrightarrow>
     complete_all cfg env ps s = Inl ReadError"
proof (induction ps arbitrary: s)
  case Nil
  then show ?case by simp
next
  case (Cons x ps)
  show ?case
  proof (cases "readUrl env (fst x) (snd x)")
    case None
    then show ?thesis by simp
  next
    case (Some r)
    with Cons.prems have "p \<in> set ps" by auto
    from Cons.IH[OF this Cons.prems(2)] Some show ?thesis by simp
  qed
qed

lemma complete_all_ok:
  "(\<forall>p \<in> set ps. readUrl env (fst p) (snd p) \<noteq> None) \<Longrightarrow>
     \<exists>s'. complete_all cfg env ps s = Inr s'"
proof (induction ps arbitrary: s)
  case Nil
  then show ?case by simp
next
  case (Cons x ps)
  from Cons.prems obtain r where r: "readUrl env (fst x) (snd x) = Some r" by auto
  from Cons.prems have "\<forall>p \<in> set ps. readUrl env (fst p) (snd p) \<noteq> None" by simp
  from Cons.IH[OF this] show ?case by (simp add: r)
qed

lemma in_issued: "p \<in> set (issued urls) \<longleftrightarrow> fst p < length urls \<and> urls ! fst p = snd p"
  by (auto simp: issued_def in_set_enumerate_eq)

lemma set_completion_order: "set (completion_order env urls) = set (issued urls)"
  by (simp add: completion_order_def)

lemma mset_completion_order: "mset (map snd (completion_order env urls)) = mset urls"
proof -
  have "mset (map snd (completion_order env urls)) = image_mset snd (mset (issued urls))"
    by (simp add: completion_order_def)
  also have "\<dots> = mset (map snd (issued urls))" by simp
  also have "\<dots> = mset urls" by (simp add: issued_def)
  finally show ?thesis .
qed

lemma set_snd_completion_order: "set (map snd (completion_order env urls)) = set urls"
  using mset_completion_order[of env urls] by (metis set_mset_mset)

lemma length_completion_order: "length (completion_order env urls) = length urls"
  using mset_completion_order[of env urls] by (metis length_map size_mset)

lemma visit_all_fields:
  "visit_all cfg env us s = Inr s' \<Longrightarrow>
     badAttempts s' = badAttempts s \<and> badContext s' = badContext s \<and>
     allowAnswer s' = allowAnswer s \<and>
     allowReflect s' = allowReflect s \<and> allowRead s' = allowRead s \<and>
     allowSearch s' = allowSearch s \<and> isAnswered s' = isAnswered s \<and> gaps s' = gaps s"
  unfolding visit_all_def by (rule complete_all_fields)

lemma visit_all_visited:
  assumes "visit_all cfg env us s = Inr s'"
  shows "visitedURLs s' = visitedURLs s @ map snd (completion_order env us)"
    and "set (object_keys (allURLs s')) = set (object_keys (allURLs s)) - set us"
    and "length (allKnowledge s') = length (allKnowledge s) + length us"
  using complete_all_visited[OF assms[unfolded visit_all_def]]
  by (simp_all add: set_snd_completion_order[simplified] length_completion_order)

lemma visit_all_knowledge:
  "visit_all cfg env us s = Inr s' \<Longrightarrow>
     \<exists>ks. allKnowledge s' = allKnowledge s @ ks \<and> map k_type ks = replicate (length us) URL"
  unfolding visit_all_def
  using complete_all_knowledge[of cfg env "completion_order env us" s s']
  by (simp add: length_completion_order)

lemma visit_all_fail:
  assumes "i < length us" and "readUrl env i (us ! i) = None"
  shows "visit_all cfg env us s = Inl ReadError"
proof -
  from assms(1) have "(i, us ! i) \<in> set (completion_order env us)"
    by (simp add: set_completion_order in_issued)
  from complete_all_fail[OF this] assms(2) show ?thesis by (simp add: visit_all_def)
qed

lemma visit_all_ok:
  assumes "\<forall>i < length us. readUrl env i (us ! i) \<noteq> None"
  shows "\<exists>s'. visit_all cfg env us s = Inr s'"
proof -
  have "\<forall>p \<in> set (completion_order env us). readUrl env (fst p) (snd p) \<noteq> None"
    using assms by (auto simp: set_completion_order in_issued)
  from complete_all_ok[OF this] show ?thesis by (simp add: visit_all_def)
qed

lemma visit_all_Inr_all:
  assumes "visit_all cfg env us s = Inr s'" and "i < length us"
  shows "readUrl env i (us ! i) \<noteq> None"
proof
  assume "readUrl env i (us ! i) = None"
  from visit_all_fail[OF assms(2) this] assms(1) show False by simp
qed

lemma merge_results_keys:
  "set (object_keys (merge_results rs m)) = set (object_keys m) \<union> sr_url ` set rs"
  unfolding merge_results_def object_keys_def
proof (induction rs arbitrary: m)
  case Nil
  then show ?case by simp
next
  case (Cons r rs)
  have "set (map fst (AList.update (sr_url r) (sr_title r) m)) = insert (sr_url r) (set (map fst m))"
    using dom_update[of "sr_url r" "sr_title r" m] by simp
  with Cons.IH[of "AList.update (sr_url r) (sr_title r) m"] show ?case by auto
qed

lemma search_all_keys:
  "search_all env i qs s = Inr s' \<Longrightarrow>
     set (object_keys (allURLs s')) = set (object_keys (allURLs s)) \<union> set (returned_urls env i qs)"
proof (induction qs arbitrary: i s)
  case Nil
  then show ?case by simp
next
  case (Cons q qs)
  from Cons.prems obtain rs where rs: "search env i q = Some rs"
    and rest: "search_all env (Suc i) qs (s\<lparr>allURLs := merge_results rs (allURLs s),
               allKeywords := allKeywords s @ [q]\<rparr>) = Inr s'"
    by (auto split: option.splits)
  have "set (object_keys (allURLs s')) =
      (set (object_keys (allURLs s)) \<union> sr_url ` set rs) \<union> set (returned_urls env (Suc i) qs)"
    using Cons.IH[OF rest] by (simp add: merge_results_keys)
  with rs show ?case by auto
qed

lemma evaluateAnswer_ok:
  "verdict env = Some ev \<Longrightarrow>
     evaluateAnswer cfg env s = Inr (ev, trackUsage cfg (evaluator_tokens env) s)"
  by (auto simp: verdict_def evaluateAnswer_def evaluator_tokens_def split: option.splits)

lemma evaluateAnswer_Inr:
  "evaluateAnswer cfg env s = Inr (ev, s') \<Longrightarrow>
     verdict env = Some ev \<and> s' = trackUsage cfg (evaluator_tokens env) s"
  by (auto simp: verdict_def evaluateAnswer_def evaluator_tokens_def split: option.splits)

lemma trackUsage_fields [simp]:
  "badAttempts (trackUsage cfg n s) = badAttempts s"
  "badContext (trackUsage cfg n s) = badContext s"
  "visitedURLs (trackUsage cfg n s) = visitedURLs s"
  "allURLs (trackUsage cfg n s) = allURLs s"
  "allKnowledge (trackUsage cfg n s) = allKnowledge s"
  "allQuestions (trackUsage cfg n s) = allQuestions s"
  "thisStep (trackUsage cfg n s) = thisStep s"
  "allowAnswer (trackUsage cfg n s) = allowAnswer s"
  "allowReflect (trackUsage cfg n s) = allowReflect s"
  "allowRead (trackUsage cfg n s) = allowRead s"
  "allowSearch (trackUsage cfg n s) = allowSearch s"
  "isAnswered (trackUsage cfg n s) = isAnswered s"
  "totalStep (trackUsage cfg n s) = totalStep s"
  "step (trackUsage cfg n s) = step s"
  "gaps (trackUsage cfg n s) = gaps s"
  "diaryContext (trackUsage cfg n s) = diaryContext s"
  by (simp_all add: trackUsage_def)

lemma do_answer_bad:
  assumes "verdict env = Some ev" and "\<not> is_definitive ev" and "cq = question cfg"
    and "badAttempts s < maxBadAttempts cfg" and "analyzeSteps env = Some a"
  shows "do_answer cfg env cq s =
     Inr (Continue ((trackUsage cfg (evaluator_tokens env) s)
        \<lparr>badContext := badContext s @
            [\<lparr>b_question = cq, b_answer = answer (thisStep s),
              b_evaluation = reasoning ev, b_recap = recap a,
              b_blame = blame a, b_improvement = improvement a\<rparr>],
         badAttempts := badAttempts s + 1,
         allowAnswer := False,
         diaryContext := [],
         step := 0\<rparr>))"
  using assms(2-5)
  by (simp add: do_answer_def evaluateAnswer_ok[OF assms(1)])

lemma do_reflect_Inr:
  assumes "do_reflect cfg env cq qs s = Inr f"
  shows "\<exists>s'. f = Continue s' \<and> allowAnswer s' = allowAnswer s \<and>
     badAttempts s' = badAttempts s \<and> badContext s' = badContext s \<and>
     isAnswered s' = isAnswered s \<and> visitedURLs s' = visitedURLs s \<and>
     allURLs s' = allURLs s \<and> allowRead s' = allowRead s \<and> allowSearch s' = allowSearch s"
proof (cases "dedup_against (allQuestions s) env qs")
  case None
  with assms show ?thesis by (simp add: do_reflect_def)
next
  case (Some new)
  with assms show ?thesis by (cases "new = []") (auto simp: do_reflect_def)
qed

lemma do_search_Inr:
  assumes "do_search env cq s = Inr f"
  shows "\<exists>s'. f = Continue s' \<and> allowAnswer s' = allowAnswer s \<and>
     badAttempts s' = badAttempts s \<and> badContext s' = badContext s \<and>
     isAnswered s' = isAnswered s \<and> visitedURLs s' = visitedURLs s \<and>
     allowReflect s' = allowReflect s \<and> allowRead s' = allowRead s \<and>
     (\<exists>old kw. rewriteQuery env = Some old \<and> dedup_against (allKeywords s) env old = Some kw \<and>
        set (object_keys (allURLs s')) =
          set (object_keys (allURLs s)) \<union> set (returned_urls env 0 kw))"
proof -
  from assms obtain old where old: "rewriteQuery env = Some old"
    by (auto simp: do_search_def split: option.splits)
  from assms old obtain kw where kw: "dedup_against (allKeywords s) env old = Some kw"
    by (auto simp: do_search_def split: option.splits)
  show ?thesis
  proof (cases "kw = []")
    case True
    with assms old kw show ?thesis by (auto simp: do_search_def)
  next
    case False
    with assms old kw obtain s1 where s1: "search_all env 0 kw s = Inr s1"
      and f: "f = Continue (s1\<lparr>diaryContext := diaryContext s1 @ [SearchDone (step s1) cq kw]\<rparr>)"
      by (auto simp: do_search_def split: sum.splits)
    from search_all_fields[OF s1] search_all_keys[OF s1] f old kw show ?thesis by simp
  qed
qed

lemma uniqueURLs_eq: "uniqueURLs targets s = filter (\<lambda>u. u \<notin> set (visitedURLs s)) targets"
  by (simp add: uniqueURLs_def)

lemma do_visit_Inr:
  assumes "do_visit cfg env targets s = Inr f"
  shows "\<exists>s'. f = Continue s' \<and> allowAnswer s' = allowAnswer s \<and>
     badAttempts s' = badAttempts s \<and> badContext s' = badContext s \<and>
     isAnswered s' = isAnswered s \<and> allowReflect s' = allowReflect s \<and>
     allowSearch s' = allowSearch s \<and>
     visitedURLs s' = visitedURLs s @ map snd (completion_order env (uniqueURLs targets s)) \<and>
     set (object_keys (allURLs s')) = set (object_keys (allURLs s)) - set (uniqueURLs targets s)"
proof (cases "uniqueURLs targets s = []")
  case True
  with assms show ?thesis by (auto simp: do_visit_def completion_order_def issued_def)
next
  case False
  with assms obtain s1 where s1: "visit_all cfg env (uniqueURLs targets s) s = Inr s1"
    and f: "f = Continue (s1\<lparr>diaryContext := diaryContext s1 @ [VisitDone (step s1) targets]\<rparr>)"
    by (auto simp: do_visit_def split: sum.splits)
  from visit_all_fields[OF s1] visit_all_visited[OF s1] f show ?thesis by simp
qed

lemma do_answer_Inr:
  assumes "do_answer cfg env cq s = Inr f"
  shows "\<exists>ev. verdict env = Some ev \<and>
     visitedURLs (state_of f) = visitedURLs s \<and> allURLs (state_of f) = allURLs s \<and>
     allowReflect (state_of f) = allowReflect s \<and>
     allowRead (state_of f) = allowRead s \<and> allowSearch (state_of f) = allowSearch s \<and>
     ((badAttempts (state_of f) = badAttempts s \<and> badContext (state_of f) = badContext s \<and>
       allowAnswer (state_of f) = allowAnswer s) \<or>
      (cq = question cfg \<and> \<not> is_definitive ev \<and> badAttempts s < maxBadAttempts cfg \<and>
       badAttempts (state_of f) = badAttempts s + 1 \<and>
       length (badContext (state_of f)) = length (badContext s) + 1 \<and>
       (\<exists>s'. f = Continue s')))"
proof -
  from assms obtain ev s1 where e: "evaluateAnswer cfg env s = Inr (ev, s1)"
    by (auto simp: do_answer_def split: sum.splits)
  from evaluateAnswer_Inr[OF e] have v: "verdict env = Some ev"
    and s1: "s1 = trackUsage cfg (evaluator_tokens env) s" by simp_all
  show ?thesis
  proof (cases "cq = question cfg")
    case False
    with assms e s1 have "f = Continue (if is_definitive ev then
        s1\<lparr>diaryContext := diaryContext s1 @
             [SubAnswerGood (step s1) cq (answer (thisStep s1)) (reasoning ev)],
           allKnowledge := allKnowledge s1 @
             [\<lparr>k_question = cq, k_answer = answer (thisStep s1), k_type = QA\<rparr>]\<rparr> else s1)"
      by (auto simp add: do_answer_def split: if_splits)
    with v s1 show ?thesis by simp
  next
    case q: True
    show ?thesis
    proof (cases "maxBadAttempts cfg \<le> badAttempts s")
      case True
      with assms e s1 q have "f = Break (s1\<lparr>diaryContext := diaryContext s1 @
            [AnswerGoodEnough (step s1) (badAttempts s1) cq (answer (thisStep s1)) (reasoning ev)],
          isAnswered := False\<rparr>)"
        by (simp add: do_answer_def)
      with v s1 show ?thesis by simp
    next
      case below: False
      show ?thesis
      proof (cases "is_definitive ev")
        case True
        with assms e s1 q below have "\<exists>x. f = Break (s1\<lparr>diaryContext := x, isAnswered := True\<rparr>)"
          by (auto simp add: do_answer_def split: if_splits)
        then obtain x where "f = Break (s1\<lparr>diaryContext := x, isAnswered := True\<rparr>)" ..
        with v s1 show ?thesis by simp
      next
        case False
        with assms e s1 q below obtain a where a: "analyzeSteps env = Some a"
          by (auto simp: do_answer_def split: option.splits)
        from below have "badAttempts s < maxBadAttempts cfg" by simp
        from do_answer_bad[OF v False q this a] assms
        obtain s' where f: "f = Continue s'" and "badAttempts s' = badAttempts s + 1"
          "length (badContext s') = length (badContext s) + 1"
          "visitedURLs s' = visitedURLs s" "allURLs s' = allURLs s"
          "allowReflect s' = allowReflect s" "allowRead s' = allowRead s"
          "allowSearch s' = allowSearch s"
          by simp
        with v False q below show ?thesis by simp
      qed
    qed
  qed
qed

lemma execute_cases:
  obtains (ans) "action (thisStep s) = ''answer''" "execute cfg env cq s = do_answer cfg env cq s"
  | (refl) qs where "action (thisStep s) = ''reflect''" "questionsToAnswer (thisStep s) = Some qs"
      "execute cfg env cq s = do_reflect cfg env cq qs s"
  | (srch) "action (thisStep s) = ''search''" "execute cfg env cq s = do_search env cq s"
      "searchQuery (thisStep s) \<noteq> None" "searchQuery (thisStep s) \<noteq> Some []"
  | (vis) targets where "action (thisStep s) = ''visit''" "URLTargets (thisStep s) = Some targets"
      "targets \<noteq> []" "execute cfg env cq s = do_visit cfg env targets s"
  | (none) "action (thisStep s) \<noteq> ''answer''" "execute cfg env cq s = Inr (Continue s)"
      "\<not> (action (thisStep s) = ''search'' \<and> searchQuery (thisStep s) \<noteq> None \<and>
          searchQuery (thisStep s) \<noteq> Some [])"
proof (cases "action (thisStep s) = ''answer''")
  case True
  then show ?thesis using ans by (simp add: execute_def)
next
  case na: False
  show ?thesis
  proof (cases "action (thisStep s) = ''reflect'' \<and> questionsToAnswer (thisStep s) \<noteq> None")
    case True
    then show ?thesis using refl by (auto simp add: execute_def)
  next
    case nr: False
    show ?thesis
    proof (cases "action (thisStep s) = ''search'' \<and> searchQuery (thisStep s) \<noteq> None \<and>
                  searchQuery (thisStep s) \<noteq> Some []")
      case True
      then show ?thesis using srch nr by (simp add: execute_def)
    next
      case ns: False
      show ?thesis
      proof (cases "action (thisStep s) = ''visit'' \<and> URLTargets (thisStep s) \<noteq> None \<and>
                  URLTargets (thisStep s) \<noteq> Some []")
        case True
        then obtain targets where "URLTargets (thisStep s) = Some targets" "targets \<noteq> []" by auto
        with True show ?thesis using vis[of targets] nr ns na by (simp add: execute_def)
      next
        case nv: False
        have "execute cfg env cq s = Inr (Continue s)"
          unfolding execute_def using na nr ns nv by (simp only: if_False)
        then show ?thesis using none na ns by simp
      qed
    qed
  qed
qed

lemma execute_Inr:
  assumes "execute cfg env cq s = Inr f"
  shows "(badAttempts (state_of f) = badAttempts s \<and> badContext (state_of f) = badContext s \<and>
       allowAnswer (state_of f) = allowAnswer s) \<or>
      (action (thisStep s) = ''answer'' \<and> cq = question cfg \<and>
       (\<exists>ev. verdict env = Some ev \<and> \<not> is_definitive ev) \<and>
       badAttempts s < maxBadAttempts cfg \<and>
       badAttempts (state_of f) = badAttempts s + 1 \<and>
       length (badContext (state_of f)) = length (badContext s) + 1 \<and>
       (\<exists>s'. f = Continue s'))"
proof (cases rule: execute_cases[of s cfg env cq])
  case ans
  with assms have "do_answer cfg env cq s = Inr f" by simp
  from do_answer_Inr[OF this] ans(1) show ?thesis by blast
next
  case (refl qs)
  with assms have "do_reflect cfg env cq qs s = Inr f" by simp
  from do_reflect_Inr[OF this] have "badAttempts (state_of f) = badAttempts s \<and>
      badContext (state_of f) = badContext s \<and> allowAnswer (state_of f) = allowAnswer s"
    by fastforce
  then show ?thesis by (rule disjI1)
next
  case srch
  with assms have "do_search env cq s = Inr f" by simp
  from do_search_Inr[OF this] have "badAttempts (state_of f) = badAttempts s \<and>
      badContext (state_of f) = badContext s \<and> allowAnswer (state_of f) = allowAnswer s"
    by fastforce
  then show ?thesis by (rule disjI1)
next
  case (vis targets)
  with assms have "do_visit cfg env targets s = Inr f" by simp
  from do_visit_Inr[OF this] have "badAttempts (state_of f) = badAttempts s \<and>
      badContext (state_of f) = badContext s \<and> allowAnswer (state_of f) = allowAnswer s"
    by fastforce
  then show ?thesis by (rule disjI1)
next
  case none
  with assms have "f = Continue s" by simp
  then show ?thesis by simp
qed

lemma execute_Break:
  assumes "execute cfg env cq s = Inr (Break s')"
  shows "allowAnswer s' = allowAnswer s"
  using execute_Inr[OF assms] by auto

lemma execute_not_answer:
  assumes "execute cfg env cq s = Inr f" and "action (thisStep s) \<noteq> ''answer''"
  shows "allowAnswer (state_of f) = allowAnswer s"
  using execute_Inr[OF assms(1)] assms(2) by auto

lemma execute_not_reflect:
  assumes "execute cfg env cq s = Inr f" and "action (thisStep s) \<noteq> ''reflect''"
  shows "allowReflect (state_of f) = allowReflect s"
proof (cases rule: execute_cases[of s cfg env cq])
  case ans
  with assms have "do_answer cfg env cq s = Inr f" by simp
  from do_answer_Inr[OF this] show ?thesis by blast
next
  case (refl qs)
  with assms show ?thesis by simp
next
  case srch
  with assms have "do_search env cq s = Inr f" by simp
  from do_search_Inr[OF this] show ?thesis by fastforce
next
  case (vis targets)
  with assms have "do_visit cfg env targets s = Inr f" by simp
  from do_visit_Inr[OF this] show ?thesis by fastforce
next
  case none
  with assms have "f = Continue s" by simp
  then show ?thesis by simp
qed

lemma iteration_attempts:
  assumes "iteration cfg env s = Inr f"
  shows "(badAttempts (state_of f) = badAttempts s \<and> badContext (state_of f) = badContext s) \<or>
      ((\<exists>d. decision env = Some d \<and> action d = ''answer'') \<and>
       currentQuestion cfg s = question cfg \<and>
       (\<exists>ev. verdict env = Some ev \<and> \<not> is_definitive ev) \<and>
       badAttempts s < maxBadAttempts cfg \<and>
       badAttempts (state_of f) = badAttempts s + 1 \<and>
       length (badContext (state_of f)) = length (badContext s) + 1 \<and>
       (\<exists>s'. f = Continue s'))"
proof -
  from iteration_Inr[OF assms] obtain d where d: "decision env = Some d"
    and e: "execute cfg env (currentQuestion cfg s) (after_oracle cfg env d s) = Inr f" by blast
  from execute_Inr[OF e] d show ?thesis by (simp only: after_oracle_fields) blast
qed

lemma iteration_inv:
  assumes "attempts_bounded cfg s" and "iteration cfg env s = Inr f"
  shows "attempts_bounded cfg (state_of f)"
  using iteration_attempts[OF assms(2)] assms(1)
  by (auto simp: attempts_bounded_def)

lemma iteration_Break:
  assumes "iteration cfg env s = Inr (Break s')"
  shows "allowAnswer s'"
proof -
  from iteration_Inr[OF assms] obtain d where
    e: "execute cfg env (currentQuestion cfg s) (after_oracle cfg env d s) = Inr (Break s')" by blast
  from execute_Break[OF e] show ?thesis by simp
qed

lemma initial_bounded: "attempts_bounded cfg (initial_state cfg u)"
  by (simp add: attempts_bounded_def initial_state_def)

lemma loop_exit:
  "attempts_bounded cfg s \<Longrightarrow> loop cfg envs s = Some (Inr s') \<Longrightarrow>
     attempts_bounded cfg s' \<and> (tokenBudget cfg \<le> totalUsage s' \<or> allowAnswer s')"
proof (induction envs arbitrary: s)
  case Nil
  then have "\<not> loop_condition cfg s" "s' = s" by (simp_all split: if_splits)
  with Nil.prems(1) show ?case by (auto simp: loop_condition_def attempts_bounded_def)
next
  case (Cons env envs)
  show ?case
  proof (cases "loop_condition cfg s")
    case False
    with Cons.prems have "s' = s" by simp
    with False Cons.prems(1) show ?thesis by (auto simp: loop_condition_def attempts_bounded_def)
  next
    case True
    show ?thesis
    proof (cases "iteration cfg env s")
      case (Inl e)
      with True Cons.prems show ?thesis by simp
    next
      case (Inr f)
      note b = iteration_inv[OF Cons.prems(1) Inr]
      show ?thesis
      proof (cases f)
        case (Continue t)
        with Inr True Cons.prems have "loop cfg envs t = Some (Inr s')" by simp
        from Cons.IH[OF _ this] b Continue show ?thesis by simp
      next
        case (Break t)
        with Inr True Cons.prems have "s' = t" by simp
        with b Break iteration_Break[of cfg env s t] Inr show ?thesis by simp
      qed
    qed
  qed
qed

lemma boundaries_bounded:
  "attempts_bounded cfg s \<Longrightarrow> t \<in> set (boundaries cfg envs s) \<Longrightarrow> attempts_bounded cfg t"
proof (induction envs arbitrary: s)
  case Nil
  then show ?case by simp
next
  case (Cons env envs)
  show ?case
  proof (cases "loop_condition cfg s")
    case False
    with Cons.prems show ?thesis by simp
  next
    case True
    show ?thesis
    proof (cases "iteration cfg env s")
      case (Inl e)
      with True Cons.prems show ?thesis by simp
    next
      case (Inr f)
      note b = iteration_inv[OF Cons.prems(1) Inr]
      show ?thesis
      proof (cases f)
        case (Continue t')
        with Inr True Cons.prems have "t = s \<or> t \<in> set (boundaries cfg envs t')" by simp
        with Cons.IH[of t'] b Continue Cons.prems(1) show ?thesis by auto
      next
        case (Break t')
        with Inr True Cons.prems have "t = s \<or> t = t'" by simp
        with b Break Cons.prems(1) show ?thesis by auto
      qed
    qed
  qed
qed

lemma getSchema_enum [simp]:
  "action_enum (getSchema rf rd an se) =
     (if se then [''search''] else []) @ (if an then [''answer''] else []) @
     (if rf then [''reflect''] else []) @ (if rd then [''visit''] else [])"
  by (simp add: getSchema_def)

lemma request_schema_enum:
  "action_enum (request_schema s) =
     (if allowSearch s \<and> length (object_keys (allURLs s)) < 20 then [''search''] else []) @
     (if allowAnswer s then [''answer''] else []) @
     (if allowReflect s \<and> length (gaps s) \<le> 1 then [''reflect''] else []) @
     (if allowRead s \<and> 0 < length (object_keys (allURLs s)) then [''visit''] else [])"
  by (simp add: request_schema_def begin_step_def)

lemma iteration_reenables_answer:
  assumes "iteration cfg env s = Inr f" and "decision env = Some d" and "action d \<noteq> ''answer''"
  shows "allowAnswer (state_of f)"
proof -
  from iteration_Inr[OF assms(1)] assms(2)
  have e: "execute cfg env (currentQuestion cfg s) (after_oracle cfg env d s) = Inr f" by auto
  from execute_not_answer[OF e] assms(3) show ?thesis by simp
qed

lemma iteration_reenables_reflect:
  assumes "iteration cfg env s = Inr f" and "decision env = Some d" and "action d \<noteq> ''reflect''"
  shows "allowReflect (state_of f)"
proof -
  from iteration_Inr[OF assms(1)] assms(2)
  have e: "execute cfg env (currentQuestion cfg s) (after_oracle cfg env d s) = Inr f" by auto
  from execute_not_reflect[OF e] assms(3) show ?thesis by simp
qed


lemma execute_frontier:
  assumes "execute cfg env cq t = Inr f"
  shows "set (object_keys (allURLs (state_of f))) \<inter> set (visitedURLs (state_of f)) =
     (set (object_keys (allURLs t)) \<inter> set (visitedURLs t)) \<union>
     (set (search_returns env (thisStep t) (allKeywords t)) \<inter> set (visitedURLs t))"
proof (cases rule: execute_cases[of t cfg env cq])
  case ans
  with assms have "do_answer cfg env cq t = Inr f" by simp
  from do_answer_Inr[OF this]
  have "visitedURLs (state_of f) = visitedURLs t" "allURLs (state_of f) = allURLs t" by blast+
  moreover have "search_returns env (thisStep t) (allKeywords t) = []"
    using ans(1) by (simp add: search_returns_def)
  ultimately show ?thesis by simp
next
  case (refl qs)
  with assms have "do_reflect cfg env cq qs t = Inr f" by simp
  from do_reflect_Inr[OF this]
  have "visitedURLs (state_of f) = visitedURLs t" "allURLs (state_of f) = allURLs t"
    by fastforce+
  moreover have "search_returns env (thisStep t) (allKeywords t) = []"
    using refl(1) by (simp add: search_returns_def)
  ultimately show ?thesis by simp
next
  case srch
  with assms have "do_search env cq t = Inr f" by simp
  from do_search_Inr[OF this] obtain s' old kw where f: "f = Continue s'"
    and v: "visitedURLs s' = visitedURLs t"
    and o: "rewriteQuery env = Some old" "dedup_against (allKeywords t) env old = Some kw"
    and k: "set (object_keys (allURLs s')) =
          set (object_keys (allURLs t)) \<union> set (returned_urls env 0 kw)"
    by blast
  have "search_returns env (thisStep t) (allKeywords t) = returned_urls env 0 kw"
    using srch(1,3,4) o by (simp add: search_returns_def)
  with f v k show ?thesis by auto
next
  case (vis targets)
  with assms have "do_visit cfg env targets t = Inr f" by simp
  from do_visit_Inr[OF this] obtain s' where f: "f = Continue s'"
    and v: "visitedURLs s' = visitedURLs t @ map snd (completion_order env (uniqueURLs targets t))"
    and k: "set (object_keys (allURLs s')) =
      set (object_keys (allURLs t)) - set (uniqueURLs targets t)"
    by blast
  have r: "search_returns env (thisStep t) (allKeywords t) = []"
    using vis(1) by (simp add: search_returns_def)
  have sv: "set (visitedURLs s') = set (visitedURLs t) \<union> set (uniqueURLs targets t)"
    using v set_snd_completion_order[of env "uniqueURLs targets t"] by simp
  have d: "set (uniqueURLs targets t) \<inter> set (visitedURLs t) = {}"
    by (auto simp: uniqueURLs_eq)
  from f sv k d r show ?thesis by auto
next
  case none
  with assms have "f = Continue t" by simp
  moreover have "search_returns env (thisStep t) (allKeywords t) = []"
    using none(3) by (auto simp: search_returns_def)
  ultimately show ?thesis by simp
qed

lemma count_list_filter:
  "count_list (filter P xs) x = (if P x then count_list xs x else 0)"
  by (induction xs) auto


section \<open>The claims\<close>

subsection \<open>Frontier and visited list\<close>

text \<open>
  Claim C1, as the code has it. A run starts with the frontier disjoint from the visited
  list. After an iteration that completes, the urls that are both frontier keys and
  visited are those that were so before, and the visited urls among those that the
  search adapter returns in the calls of that iteration: a \<^verbatim>\<open>search\<close> writes every
  returned url into the frontier without looking at the visited list. So the frontier
  is disjoint from the visited list after the iteration exactly when it was before and
  no url returned in the iteration has been visited. An iteration whose action is not
  \<^verbatim>\<open>search\<close>, a \<^verbatim>\<open>visit\<close> in particular, leaves them disjoint exactly when they were.
\<close>

theorem frontier_visited_step:
  "frontier_disjoint (initial_state cfg u) \<and>
   (iteration cfg env s = Inr f \<longrightarrow>
      set (object_keys (allURLs (state_of f))) \<inter> set (visitedURLs (state_of f)) =
        (set (object_keys (allURLs s)) \<inter> set (visitedURLs s)) \<union>
        (set (step_returns env s) \<inter> set (visitedURLs s)) \<and>
      (frontier_disjoint (state_of f) \<longleftrightarrow>
         frontier_disjoint s \<and> set (step_returns env s) \<inter> set (visitedURLs s) = {}) \<and>
      (\<forall>d. decision env = Some d \<and> action d \<noteq> ''search'' \<longrightarrow>
         (frontier_disjoint (state_of f) \<longleftrightarrow> frontier_disjoint s)))"
proof (intro conjI impI)
  show "frontier_disjoint (initial_state cfg u)"
    by (simp add: frontier_disjoint_def initial_state_def object_keys_def)
next
  assume it: "iteration cfg env s = Inr f"
  from iteration_Inr[OF it] obtain d where d: "decision env = Some d"
    and e: "execute cfg env (currentQuestion cfg s) (after_oracle cfg env d s) = Inr f" by blast
  have r: "search_returns env d (allKeywords s) = step_returns env s"
    by (simp add: step_returns_def d)
  from execute_frontier[OF e]
  show eq: "set (object_keys (allURLs (state_of f))) \<inter> set (visitedURLs (state_of f)) =
        (set (object_keys (allURLs s)) \<inter> set (visitedURLs s)) \<union>
        (set (step_returns env s) \<inter> set (visitedURLs s))"
    by (simp add: r)
  then show iff: "frontier_disjoint (state_of f) \<longleftrightarrow>
         frontier_disjoint s \<and> set (step_returns env s) \<inter> set (visitedURLs s) = {}"
    by (simp add: frontier_disjoint_def)
  show "\<forall>d. decision env = Some d \<and> action d \<noteq> ''search'' \<longrightarrow>
         (frontier_disjoint (state_of f) \<longleftrightarrow> frontier_disjoint s)"
  proof (intro allI impI)
    fix d' assume "decision env = Some d' \<and> action d' \<noteq> ''search''"
    then have "step_returns env s = []" by (simp add: step_returns_def search_returns_def)
    with iff show "frontier_disjoint (state_of f) \<longleftrightarrow> frontier_disjoint s" by simp
  qed
qed

text \<open>
  The theorem at three iterations of one run: a search that finds \<^verbatim>\<open>u\<close>, the visit of
  \<^verbatim>\<open>u\<close>, and a second search that finds \<^verbatim>\<open>u\<close> again.
\<close>

theorem frontier_visited_step_witness:
  "step_returns (says_search ''k1'' ''u'') (initial_state (example_config 1000 3) None) = [''u''] \<and>
   map_option frontier_disjoint (after (example_config 1000 3) (says_search ''k1'' ''u'') (initial_state (example_config 1000 3) None)) = Some True \<and>
   frontier_and_visited (state_after (example_config 1000 3) [says_search ''k1'' ''u'']) = ([''u''], []) \<and>
   map_option frontier_disjoint (after (example_config 1000 3) (says_visit [''u''] []) (state_after (example_config 1000 3) [says_search ''k1'' ''u''])) = Some True \<and>
   step_returns (says_search ''k2'' ''u'') (state_after (example_config 1000 3) [says_search ''k1'' ''u'', says_visit [''u''] []]) = [''u''] \<and>
   frontier_and_visited (state_after (example_config 1000 3) [says_search ''k1'' ''u'', says_visit [''u''] []]) = ([], [''u'']) \<and>
   map_option frontier_disjoint (after (example_config 1000 3) (says_search ''k2'' ''u'') (state_after (example_config 1000 3) [says_search ''k1'' ''u'', says_visit [''u''] []])) = Some False"
proof -
  let ?C = "(example_config 1000 3)"
  let ?I = "initial_state ?C None"
  let ?E1 = "says_search ''k1'' ''u''"
  let ?E2 = "says_visit [''u''] []"
  let ?E3 = "says_search ''k2'' ''u''"
  let ?S1 = "state_after ?C [?E1]"
  let ?S2 = "state_after ?C [?E1, ?E2]"
  have r1: "step_returns ?E1 ?I = [''u'']" by (simp add: run_defs)
  have d1: "frontier_disjoint ?I" "set (step_returns ?E1 ?I) \<inter> set (visitedURLs ?I) = {}"
    by (simp_all add: frontier_disjoint_def run_defs)
  have "\<exists>f. iteration ?C ?E1 ?I = Inr f" by (simp add: run_defs)
  then obtain f1 where f1: "iteration ?C ?E1 ?I = Inr f1" ..
  from frontier_visited_step[of ?C None ?E1 ?I f1] f1 d1
  have "frontier_disjoint (state_of f1)" by blast
  with f1 have 1: "map_option frontier_disjoint (after ?C ?E1 ?I) = Some True"
    by (simp add: after_def)
  have v1: "frontier_and_visited ?S1 = ([''u''], [])" by (simp add: run_defs)
  have d2: "frontier_disjoint ?S1" by (simp add: frontier_disjoint_def run_defs)
  have a2: "decision ?E2 = Some ((decide ''visit'')\<lparr>URLTargets := Some [''u'']\<rparr>)"
    "action ((decide ''visit'')\<lparr>URLTargets := Some [''u'']\<rparr>) \<noteq> ''search''"
    by (simp_all add: run_defs)
  have "\<exists>f. iteration ?C ?E2 ?S1 = Inr f" by (simp add: run_defs)
  then obtain f2 where f2: "iteration ?C ?E2 ?S1 = Inr f2" ..
  from frontier_visited_step[of ?C None ?E2 ?S1 f2] f2 d2 a2
  have "frontier_disjoint (state_of f2)" by blast
  with f2 have 2: "map_option frontier_disjoint (after ?C ?E2 ?S1) = Some True"
    by (simp add: after_def)
  have r3: "step_returns ?E3 ?S2 = [''u'']" by (simp add: run_defs)
  have v3: "frontier_and_visited ?S2 = ([], [''u''])" by (simp add: run_defs)
  have d3: "set (step_returns ?E3 ?S2) \<inter> set (visitedURLs ?S2) \<noteq> {}"
    by (simp add: run_defs)
  have "\<exists>f. iteration ?C ?E3 ?S2 = Inr f" by (simp add: run_defs)
  then obtain f3 where f3: "iteration ?C ?E3 ?S2 = Inr f3" ..
  from frontier_visited_step[of ?C None ?E3 ?S2 f3] f3 d3
  have "\<not> frontier_disjoint (state_of f3)" by blast
  with f3 have 3: "map_option frontier_disjoint (after ?C ?E3 ?S2) = Some False"
    by (simp add: after_def)
  from r1 1 v1 2 r3 v3 3 show ?thesis by simp
qed

text \<open>
  Claim C1 as stated fails: a search returns \<^verbatim>\<open>u\<close>, a visit moves \<^verbatim>\<open>u\<close> to the visited
  list, and a second search with another keyword returns \<^verbatim>\<open>u\<close> again. The frontier
  keys and the visited list at the four step boundaries:
\<close>

theorem frontier_visited_counterexample:
  "map frontier_and_visited
     (boundaries (example_config 1000 3) [says_search ''k1'' ''u'', says_visit [''u''] [], says_search ''k2'' ''u''] (initial_state (example_config 1000 3) None)) =
     [([], []), ([''u''], []), ([], [''u'']), ([''u''], [''u''])] \<and>
   frontier_disjoint (state_after (example_config 1000 3) [says_search ''k1'' ''u'', says_visit [''u''] [], says_search ''k2'' ''u'']) = False"
  by (simp add: run_defs frontier_disjoint_def)

subsection \<open>The beast-mode request\<close>

text \<open>
  Claim C2, as the code has it. When the loop is left without an accepted answer, the
  beast-mode schema permits no action other than \<^verbatim>\<open>answer\<close>. The request goes out only
  when the usage plus the estimate of 50 tokens is within the budget; its enum is then
  exactly \<^verbatim>\<open>["answer"]\<close>, and the run returns the parsed decision, or fails when the
  oracle call throws or its text is not JSON. When the usage plus the estimate is over the
  budget the run fails with the budget error.
\<close>

theorem beast_mode_request:
  assumes "loop cfg envs (initial_state cfg u) = Some (Inr s)" and "\<not> isAnswered s"
  shows "set (action_enum (beast_schema s)) \<subseteq> {''answer''} \<and>
     (totalUsage s + estimatedTokens \<le> tokenBudget cfg \<longrightarrow>
        action_enum (beast_schema s) = [''answer''] \<and>
        getResponse cfg u envs beast =
          Some (case generateContent beast of
                  None \<Rightarrow> Inl OracleError
                | Some r \<Rightarrow>
                    (case parsed r of
                       None \<Rightarrow> Inl SyntaxError
                     | Some d \<Rightarrow>
                         Inr \<lparr>result = d,
                              context_usage =
                                tracker cfg (totalUsage s) (count_or_zero (totalTokenCount r))\<rparr>))) \<and>
     (tokenBudget cfg < totalUsage s + estimatedTokens \<longrightarrow>
        getResponse cfg u envs beast =
          Some (Inl (TokenBudgetExceeded (totalUsage s + estimatedTokens) (tokenBudget cfg))))"
proof -
  from loop_exit[OF initial_bounded assms(1)]
  have ex: "tokenBudget cfg \<le> totalUsage s \<or> allowAnswer s" by simp
  have 1: "set (action_enum (beast_schema s)) \<subseteq> {''answer''}"
    by (auto simp: beast_schema_def)
  have 2: "action_enum (beast_schema s) = [''answer'']"
    if "totalUsage s + estimatedTokens \<le> tokenBudget cfg"
    using that ex by (auto simp: beast_schema_def estimatedTokens_def)
  have 3: "getResponse cfg u envs beast = Some (finish cfg beast s)"
    by (simp add: getResponse_def assms(1))
  show ?thesis
    using 1 2 assms(2) by (auto simp: 3 finish_def split: option.splits)
qed

text \<open>
  The theorem on a run with no retries allowed: the first answer leaves the loop as a
  last resort, not accepted, and beast mode returns what the oracle then says.
\<close>

theorem beast_mode_request_witness:
  "map_option isAnswered (exit_state (example_config 1000 0) None [judged 0 True (says_answer 0 ''a'')]) = Some False \<and>
   map_option action_enum (map_option beast_schema (exit_state (example_config 1000 0) None [judged 0 True (says_answer 0 ''a'')])) =
     Some [''answer''] \<and>
   getResponse (example_config 1000 0) None [judged 0 True (says_answer 0 ''a'')] (says_answer 7 ''final'') =
     Some (Inr \<lparr>result = (decide ''answer'')\<lparr>answer := Some ''final''\<rparr>, context_usage = 7\<rparr>)"
proof -
  let ?C = "(example_config 1000 0)"
  let ?E = "judged 0 True (says_answer 0 ''a'')"
  let ?B = "says_answer 7 ''final''"
  have "\<exists>s. loop ?C [?E] (initial_state ?C None) = Some (Inr s) \<and> \<not> isAnswered s \<and>
          totalUsage s = 0"
    by (simp add: run_defs)
  then obtain s where l: "loop ?C [?E] (initial_state ?C None) = Some (Inr s)"
    and na: "\<not> isAnswered s" and us: "totalUsage s = 0" by blast
  have b: "totalUsage s + estimatedTokens \<le> tokenBudget ?C"
    by (simp add: us estimatedTokens_def example_config_def)
  from beast_mode_request[OF l na, of ?B] b
  have en: "action_enum (beast_schema s) = [''answer'']"
    and g: "getResponse ?C None [?E] ?B =
          Some (case generateContent ?B of
                  None \<Rightarrow> Inl OracleError
                | Some r \<Rightarrow>
                    (case parsed r of
                       None \<Rightarrow> Inl SyntaxError
                     | Some d \<Rightarrow>
                         Inr \<lparr>result = d,
                              context_usage =
                                tracker ?C (totalUsage s) (count_or_zero (totalTokenCount r))\<rparr>))"
    by blast+
  have ex: "exit_state ?C None [?E] = Some s" unfolding exit_state_def by (simp only: l option.case sum.case)
  have "(case generateContent ?B of
                  None \<Rightarrow> Inl OracleError
                | Some r \<Rightarrow>
                    (case parsed r of
                       None \<Rightarrow> Inl SyntaxError
                     | Some d \<Rightarrow>
                         Inr \<lparr>result = d,
                              context_usage =
                                tracker ?C (totalUsage s) (count_or_zero (totalTokenCount r))\<rparr>))
        = Inr \<lparr>result = (decide ''answer'')\<lparr>answer := Some ''final''\<rparr>, context_usage = 7\<rparr>"
    by (simp add: us says_answer_def oracle_says_def all_fail_def example_config_def
          cumulative_def count_or_zero_def)
  with g have "getResponse ?C None [?E] ?B =
     Some (Inr \<lparr>result = (decide ''answer'')\<lparr>answer := Some ''final''\<rparr>, context_usage = 7\<rparr>)"
    by simp
  with ex na en show ?thesis by simp
qed

text \<open>
  Claim C2 as stated fails. With a budget of 100 tokens, the first answer costs 60
  tokens, its evaluation 40, and the verdict is not definitive: the loop is left on the
  budget with \<^verbatim>\<open>allowAnswer\<close> false, no answer is accepted, the action enum of the
  beast-mode schema is empty, and the run fails on the pre-flight check, although the
  oracle would have answered.
\<close>

theorem beast_mode_counterexample:
  "map_option isAnswered (exit_state (example_config 100 3) None [judged 40 False (says_answer 60 ''a'')]) = Some False \<and>
   map_option action_enum (map_option beast_schema (exit_state (example_config 100 3) None [judged 40 False (says_answer 60 ''a'')])) = Some [] \<and>
   getResponse (example_config 100 3) None [judged 40 False (says_answer 60 ''a'')] (says_answer 0 ''final'') =
     Some (Inl (TokenBudgetExceeded 150 100))"
  by (simp add: run_defs beast_schema_def)

subsection \<open>A run that exhausts its budget\<close>

text \<open>
  Claim C3, as the code has it. A run whose loop is left with the usage at or over the
  budget and no accepted answer does not return an answer: the pre-flight check of beast
  mode raises the budget error. Inside the loop the same check raises the budget error
  as soon as the usage plus the estimate of 50 tokens is over the budget, so every
  iteration that completes started with the usage at least 50 tokens under the budget;
  what the calls of the iteration then book is not checked.
\<close>

theorem budget_exhausted_run:
  "(loop cfg envs (initial_state cfg u) = Some (Inr s) \<and> \<not> isAnswered s \<and>
      tokenBudget cfg \<le> totalUsage s \<longrightarrow>
        getResponse cfg u envs beast =
          Some (Inl (TokenBudgetExceeded (totalUsage s + estimatedTokens) (tokenBudget cfg)))) \<and>
   (tokenBudget cfg < totalUsage t + estimatedTokens \<longrightarrow>
        iteration cfg env t =
          Inl (TokenBudgetExceeded (totalUsage t + estimatedTokens) (tokenBudget cfg))) \<and>
   (iteration cfg env t = Inr f \<longrightarrow> totalUsage t + estimatedTokens \<le> tokenBudget cfg)"
proof (intro conjI impI)
  assume a: "loop cfg envs (initial_state cfg u) = Some (Inr s) \<and> \<not> isAnswered s \<and>
      tokenBudget cfg \<le> totalUsage s"
  then show "getResponse cfg u envs beast =
          Some (Inl (TokenBudgetExceeded (totalUsage s + estimatedTokens) (tokenBudget cfg)))"
    by (simp add: getResponse_def finish_def estimatedTokens_def)
next
  assume "tokenBudget cfg < totalUsage t + estimatedTokens"
  then show "iteration cfg env t =
          Inl (TokenBudgetExceeded (totalUsage t + estimatedTokens) (tokenBudget cfg))"
    by (simp add: iteration_def ask_oracle_def begin_step_def)
next
  assume "iteration cfg env t = Inr f"
  from iteration_Inr[OF this] show "totalUsage t + estimatedTokens \<le> tokenBudget cfg" by simp
qed

text \<open>
  The theorem on a run whose first oracle response uses the whole budget of 100 tokens,
  and at the iteration that would follow.
\<close>

theorem budget_exhausted_run_witness:
  "map_option totalUsage (exit_state (example_config 100 3) None [says_reflect 100 [''q''] []]) = Some 100 \<and>
   map_option isAnswered (exit_state (example_config 100 3) None [says_reflect 100 [''q''] []]) = Some False \<and>
   getResponse (example_config 100 3) None [says_reflect 100 [''q''] []] (says_answer 0 ''final'') =
     Some (Inl (TokenBudgetExceeded 150 100)) \<and>
   iteration (example_config 100 3) (says_answer 0 ''a'') (state_after (example_config 100 3) [says_reflect 100 [''q''] []]) =
     Inl (TokenBudgetExceeded 150 100)"
proof -
  let ?C = "(example_config 100 3)"
  let ?E = "says_reflect 100 [''q''] []"
  let ?B = "says_answer 0 ''final''"
  let ?T = "state_after ?C [?E]"
  have "\<exists>s. loop ?C [?E] (initial_state ?C None) = Some (Inr s) \<and> \<not> isAnswered s \<and>
          totalUsage s = 100"
    by (simp add: run_defs)
  then obtain s where l: "loop ?C [?E] (initial_state ?C None) = Some (Inr s)"
    and na: "\<not> isAnswered s" and us: "totalUsage s = 100" by blast
  have b: "tokenBudget ?C \<le> totalUsage s" by (simp add: us example_config_def)
  have ut: "totalUsage ?T = 100" by (simp add: run_defs)
  have bt: "tokenBudget ?C < totalUsage ?T + estimatedTokens"
    by (simp add: run_defs)
  note th = budget_exhausted_run[of ?C "[?E]" None s ?B ?T "says_answer 0 ''a''"]
  from th l na b have "getResponse ?C None [?E] ?B =
          Some (Inl (TokenBudgetExceeded (totalUsage s + estimatedTokens) (tokenBudget ?C)))"
    by blast
  then have g: "getResponse ?C None [?E] ?B = Some (Inl (TokenBudgetExceeded 150 100))"
    by (simp add: us estimatedTokens_def example_config_def)
  from th bt have "iteration ?C (says_answer 0 ''a'') ?T =
          Inl (TokenBudgetExceeded (totalUsage ?T + estimatedTokens) (tokenBudget ?C))"
    by blast
  moreover have "totalUsage ?T + estimatedTokens = 150" "tokenBudget ?C = 100"
    by (simp_all add: run_defs)
  ultimately have i: "iteration ?C (says_answer 0 ''a'') ?T = Inl (TokenBudgetExceeded 150 100)"
    by (simp only:)
  have ex: "exit_state ?C None [?E] = Some s" unfolding exit_state_def by (simp only: l option.case sum.case)
  from ex us na g i show ?thesis by simp
qed

text \<open>
  Claim C3 as stated fails. With a budget of 100 tokens and a first oracle response of
  1000 tokens, the usage at the second step boundary is 1000, the loop is left on the
  budget, and the run raises the budget error instead of returning an answer.
\<close>

theorem budget_exhausted_counterexample:
  "map totalUsage (boundaries (example_config 100 3) [says_reflect 1000 [''q''] []] (initial_state (example_config 100 3) None)) = [0, 1000] \<and>
   getResponse (example_config 100 3) None [says_reflect 1000 [''q''] []] (says_answer 0 ''final'') =
     Some (Inl (TokenBudgetExceeded 1050 100))"
  by (simp add: run_defs)

subsection \<open>A rejected answer to the original question\<close>

text \<open>
  Claim C4. In an iteration whose current question is the original question, with the
  bad-attempt count below its ceiling, an \<^verbatim>\<open>answer\<close> decision that the evaluator judges
  not definitive appends one bad-attempt record (question, answer, evaluation reasoning,
  recap, blame, improvement), raises the bad-attempt count by one, empties the diary,
  sets the intra-attempt step counter to zero and leaves the global step counter at its
  value of this iteration (one more than before the iteration). \<^verbatim>\<open>answer\<close> is not in the
  schema of the next request, and it is allowed again after any next iteration whose
  decision is an action of that schema.
\<close>

theorem bad_attempt_step:
  assumes "totalUsage s + estimatedTokens \<le> tokenBudget cfg"
    and "decision env = Some d" and "action d = ''answer''"
    and "currentQuestion cfg s = question cfg"
    and "badAttempts s < maxBadAttempts cfg"
    and "verdict env = Some ev" and "\<not> is_definitive ev"
    and "analyzeSteps env = Some a"
  shows "\<exists>s'. iteration cfg env s = Inr (Continue s') \<and>
           badContext s' = badContext s @
             [\<lparr>b_question = question cfg, b_answer = answer d,
               b_evaluation = reasoning ev, b_recap = recap a,
               b_blame = blame a, b_improvement = improvement a\<rparr>] \<and>
           badAttempts s' = badAttempts s + 1 \<and>
           \<not> allowAnswer s' \<and>
           ''answer'' \<notin> set (action_enum (request_schema s')) \<and>
           (\<forall>env' d' f'. iteration cfg env' s' = Inr f' \<and> decision env' = Some d' \<and>
               action d' \<in> set (action_enum (request_schema s')) \<longrightarrow>
               allowAnswer (state_of f')) \<and>
           diaryContext s' = [] \<and>
           step s' = 0 \<and>
           totalStep s' = totalStep s + 1"
proof -
  let ?t = "after_oracle cfg env d s"
  let ?s' = "(trackUsage cfg (evaluator_tokens env) ?t)
        \<lparr>badContext := badContext ?t @
            [\<lparr>b_question = question cfg, b_answer = answer (thisStep ?t),
              b_evaluation = reasoning ev, b_recap = recap a,
              b_blame = blame a, b_improvement = improvement a\<rparr>],
         badAttempts := badAttempts ?t + 1,
         allowAnswer := False,
         diaryContext := [],
         step := 0\<rparr>"
  have "iteration cfg env s = do_answer cfg env (question cfg) ?t"
    using assms(3,4) by (simp add: iteration_ok[OF assms(1,2)] execute_def)
  also have "\<dots> = Inr (Continue ?s')"
    by (rule do_answer_bad[OF assms(6,7) refl _ assms(8)]) (simp add: assms(5))
  finally have it: "iteration cfg env s = Inr (Continue ?s')" .
  have n: "''answer'' \<notin> set (action_enum (request_schema ?s'))"
    by (simp add: request_schema_enum)
  have nx: "allowAnswer (state_of f')"
    if "iteration cfg env' ?s' = Inr f'" "decision env' = Some d'"
      "action d' \<in> set (action_enum (request_schema ?s'))" for env' d' f'
  proof -
    from that(3) n have "action d' \<noteq> ''answer''" by metis
    from iteration_reenables_answer[OF that(1,2) this] show ?thesis .
  qed
  have "badContext ?s' = badContext s @
             [\<lparr>b_question = question cfg, b_answer = answer d,
               b_evaluation = reasoning ev, b_recap = recap a,
               b_blame = blame a, b_improvement = improvement a\<rparr>]"
    "badAttempts ?s' = badAttempts s + 1" "\<not> allowAnswer ?s'" "diaryContext ?s' = []"
    "step ?s' = 0" "totalStep ?s' = totalStep s + 1"
    by simp_all
  with it n nx show ?thesis by blast
qed

text \<open>
  The theorem at the first iteration of a run: the first answer to the original
  question is judged not definitive.
\<close>

theorem bad_attempt_step_witness:
  "currentQuestion (example_config 1000 3) (initial_state (example_config 1000 3) None) = question (example_config 1000 3) \<and>
   badAttempts (initial_state (example_config 1000 3) None) < maxBadAttempts (example_config 1000 3) \<and>
   map_option badAttempts (after (example_config 1000 3) (judged 5 False (says_answer 10 ''a'')) (initial_state (example_config 1000 3) None)) = Some 1 \<and>
   map_option badContext (after (example_config 1000 3) (judged 5 False (says_answer 10 ''a'')) (initial_state (example_config 1000 3) None)) =
     Some [\<lparr>b_question = ''q'', b_answer = Some ''a'', b_evaluation = ''r'',
            b_recap = ''c'', b_blame = ''b'', b_improvement = ''i''\<rparr>] \<and>
   map_option allowAnswer (after (example_config 1000 3) (judged 5 False (says_answer 10 ''a'')) (initial_state (example_config 1000 3) None)) = Some False \<and>
   map_option diaryContext (after (example_config 1000 3) (judged 5 False (says_answer 10 ''a'')) (initial_state (example_config 1000 3) None)) = Some [] \<and>
   map_option step (after (example_config 1000 3) (judged 5 False (says_answer 10 ''a'')) (initial_state (example_config 1000 3) None)) = Some 0 \<and>
   map_option totalStep (after (example_config 1000 3) (judged 5 False (says_answer 10 ''a'')) (initial_state (example_config 1000 3) None)) = Some 1"
proof -
  let ?C = "(example_config 1000 3)"
  let ?E = "judged 5 False (says_answer 10 ''a'')"
  let ?I = "initial_state ?C None"
  let ?D = "(decide ''answer'')\<lparr>answer := Some ''a''\<rparr>"
  have h1: "totalUsage ?I + estimatedTokens \<le> tokenBudget ?C" by (simp add: run_defs)
  have h2: "decision ?E = Some ?D" by (simp add: run_defs)
  have h3: "action ?D = ''answer''" by (simp add: run_defs)
  have h4: "currentQuestion ?C ?I = question ?C" by (simp add: run_defs)
  have h5: "badAttempts ?I < maxBadAttempts ?C" by (simp add: run_defs)
  have h6: "verdict ?E = Some \<lparr>is_definitive = False, reasoning = ''r''\<rparr>" by (simp add: run_defs)
  have h7: "\<not> is_definitive \<lparr>is_definitive = False, reasoning = ''r''\<rparr>" by simp
  have h8: "analyzeSteps ?E = Some \<lparr>recap = ''c'', blame = ''b'', improvement = ''i''\<rparr>"
    by (simp add: run_defs)
  from bad_attempt_step[OF h1 h2 h3 h4 h5 h6 h7 h8] obtain s' where
    it: "iteration ?C ?E ?I = Inr (Continue s')"
    and r: "badContext s' = badContext ?I @
             [\<lparr>b_question = question ?C, b_answer = answer ?D,
               b_evaluation = reasoning \<lparr>is_definitive = False, reasoning = ''r''\<rparr>,
               b_recap = recap \<lparr>recap = ''c'', blame = ''b'', improvement = ''i''\<rparr>,
               b_blame = blame \<lparr>recap = ''c'', blame = ''b'', improvement = ''i''\<rparr>,
               b_improvement = improvement \<lparr>recap = ''c'', blame = ''b'', improvement = ''i''\<rparr>\<rparr>]"
    and c: "badAttempts s' = badAttempts ?I + 1" "\<not> allowAnswer s'" "diaryContext s' = []"
      "step s' = 0" "totalStep s' = totalStep ?I + 1"
    by blast
  from it have a: "after ?C ?E ?I = Some s'" by (simp add: after_def)
  from r have r': "badContext s' = [\<lparr>b_question = ''q'', b_answer = Some ''a'', b_evaluation = ''r'',
            b_recap = ''c'', b_blame = ''b'', b_improvement = ''i''\<rparr>]"
    by (simp add: initial_state_def example_config_def decide_def)
  from c have c': "badAttempts s' = 1" "totalStep s' = 1"
    by (simp_all add: initial_state_def)
  from h4 h5 a r' c c' show ?thesis by simp
qed

subsection \<open>The bad-attempt counter\<close>

text \<open>
  Claim C5. At every step boundary of a run the number of bad-attempt records equals the
  bad-attempt counter and is at most \<^verbatim>\<open>maxBadAttempts + 1\<close>. An iteration that completes
  either leaves the counter and the records as they were, or it raises the counter by
  one and appends one record, and then its decision was \<^verbatim>\<open>answer\<close>, its question the
  original question, and the evaluator's verdict not definitive.
\<close>

theorem bad_attempts_counter:
  "(t \<in> set (boundaries cfg envs (initial_state cfg u)) \<longrightarrow>
      length (badContext t) = badAttempts t \<and> length (badContext t) \<le> maxBadAttempts cfg + 1) \<and>
   (iteration cfg env s = Inr f \<longrightarrow>
      (badAttempts (state_of f) = badAttempts s \<and> badContext (state_of f) = badContext s) \<or>
      ((\<exists>d. decision env = Some d \<and> action d = ''answer'') \<and>
       currentQuestion cfg s = question cfg \<and>
       (\<exists>ev. verdict env = Some ev \<and> \<not> is_definitive ev) \<and>
       badAttempts (state_of f) = badAttempts s + 1 \<and>
       length (badContext (state_of f)) = length (badContext s) + 1))"
proof (intro conjI impI)
  assume "t \<in> set (boundaries cfg envs (initial_state cfg u))"
  from boundaries_bounded[OF initial_bounded this]
  show "length (badContext t) = badAttempts t" "length (badContext t) \<le> maxBadAttempts cfg + 1"
    by (simp_all add: attempts_bounded_def)
next
  assume "iteration cfg env s = Inr f"
  from iteration_attempts[OF this]
  show "(badAttempts (state_of f) = badAttempts s \<and> badContext (state_of f) = badContext s) \<or>
      ((\<exists>d. decision env = Some d \<and> action d = ''answer'') \<and>
       currentQuestion cfg s = question cfg \<and>
       (\<exists>ev. verdict env = Some ev \<and> \<not> is_definitive ev) \<and>
       badAttempts (state_of f) = badAttempts s + 1 \<and>
       length (badContext (state_of f)) = length (badContext s) + 1)"
    by blast
qed

text \<open>
  The theorem on the run whose first answer is judged not definitive: at the second
  step boundary there is one record and the counter is one.
\<close>

theorem bad_attempts_counter_witness:
  "(state_after (example_config 1000 3) [judged 5 False (says_answer 10 ''a'')]) \<in> set (boundaries (example_config 1000 3) [judged 5 False (says_answer 10 ''a'')] (initial_state (example_config 1000 3) None)) \<and>
   length (badContext (state_after (example_config 1000 3) [judged 5 False (says_answer 10 ''a'')])) = badAttempts (state_after (example_config 1000 3) [judged 5 False (says_answer 10 ''a'')]) \<and>
   length (badContext (state_after (example_config 1000 3) [judged 5 False (says_answer 10 ''a'')])) \<le> maxBadAttempts (example_config 1000 3) + 1 \<and>
   badAttempts (state_after (example_config 1000 3) [judged 5 False (says_answer 10 ''a'')]) = 1 \<and>
   map_option badAttempts (after (example_config 1000 3) (judged 5 False (says_answer 10 ''a'')) (initial_state (example_config 1000 3) None)) = Some (badAttempts (initial_state (example_config 1000 3) None) + 1)"
proof -
  let ?C = "(example_config 1000 3)"
  let ?E = "judged 5 False (says_answer 10 ''a'')"
  let ?I = "initial_state ?C None"
  let ?T = "state_after ?C [?E]"
  have m: "?T \<in> set (boundaries ?C [?E] ?I)" by (simp add: run_defs)
  have "\<exists>f. iteration ?C ?E ?I = Inr f \<and> badAttempts (state_of f) = 1" by (simp add: run_defs)
  then obtain f where f: "iteration ?C ?E ?I = Inr f" and f1: "badAttempts (state_of f) = 1"
    by blast
  note th = bad_attempts_counter[of ?T ?C "[?E]" None ?E ?I f]
  from th m have 1: "length (badContext ?T) = badAttempts ?T"
    "length (badContext ?T) \<le> maxBadAttempts ?C + 1" by blast+
  have i0: "badAttempts ?I = 0" by (simp add: initial_state_def)
  from th f f1 i0 have "badAttempts (state_of f) = badAttempts ?I + 1" by auto
  with f have 2: "map_option badAttempts (after ?C ?E ?I) = Some (badAttempts ?I + 1)"
    by (simp add: after_def)
  have 3: "badAttempts ?T = 1" by (simp add: run_defs)
  from m 1 2 3 show ?thesis by simp
qed

subsection \<open>A reflect step that finds new gaps\<close>

text \<open>
  Claim C6. In a \<^verbatim>\<open>reflect\<close> iteration in which at least one proposed sub-question
  survives deduplication against the all-time question list, the gap queue after the
  iteration is the queue without its front element, then the surviving sub-questions,
  then the original question; the all-time question list has the same sub-questions
  appended.
\<close>

theorem reflect_new_gaps:
  assumes "totalUsage s + estimatedTokens \<le> tokenBudget cfg"
    and "decision env = Some d" and "action d = ''reflect''"
    and "questionsToAnswer d = Some qs"
    and "dedup_against (allQuestions s) env qs = Some new" and "new \<noteq> []"
  shows "\<exists>s'. iteration cfg env s = Inr (Continue s') \<and>
           gaps s' = (case gaps s of [] \<Rightarrow> [] | _ # gs \<Rightarrow> gs) @ new @ [question cfg] \<and>
           allQuestions s' = allQuestions s @ new"
  using assms(3-6)
  by (simp add: iteration_ok[OF assms(1,2)] execute_def do_reflect_def)

text \<open>
  The theorem at the first iteration of a run on the question \<^verbatim>\<open>q\<close>: the oracle
  proposes \<^verbatim>\<open>a\<close> and \<^verbatim>\<open>b\<close>, the deduplicator keeps \<^verbatim>\<open>a\<close>.
\<close>

theorem reflect_new_gaps_witness:
  "dedup_against (allQuestions (initial_state (example_config 1000 3) None))
     (says_reflect 0 [''a'', ''b''] [''a'']) [''a'', ''b''] = Some [''a''] \<and>
   map_option gaps (after (example_config 1000 3) (says_reflect 0 [''a'', ''b''] [''a''])
     (initial_state (example_config 1000 3) None)) = Some [''a'', ''q''] \<and>
   map_option allQuestions (after (example_config 1000 3) (says_reflect 0 [''a'', ''b''] [''a''])
     (initial_state (example_config 1000 3) None)) = Some [''q'', ''a'']"
proof -
  let ?C = "example_config 1000 3"
  let ?E = "says_reflect 0 [''a'', ''b''] [''a'']"
  let ?I = "initial_state ?C None"
  let ?D = "(decide ''reflect'')\<lparr>questionsToAnswer := Some [''a'', ''b'']\<rparr>"
  have h1: "totalUsage ?I + estimatedTokens \<le> tokenBudget ?C" by (simp add: run_defs)
  have h2: "decision ?E = Some ?D" by (simp add: run_defs)
  have h3: "action ?D = ''reflect''" by (simp add: run_defs)
  have h4: "questionsToAnswer ?D = Some [''a'', ''b'']" by (simp add: run_defs)
  have h5: "dedup_against (allQuestions ?I) ?E [''a'', ''b''] = Some [''a'']"
    by (simp add: run_defs)
  have h6: "[''a''] \<noteq> ([] :: string list)" by simp
  from reflect_new_gaps[OF h1 h2 h3 h4 h5 h6] obtain s' where
    "iteration ?C ?E ?I = Inr (Continue s')"
    "gaps s' = (case gaps ?I of [] \<Rightarrow> [] | _ # gs \<Rightarrow> gs) @ [''a''] @ [question ?C]"
    "allQuestions s' = allQuestions ?I @ [''a'']" by blast
  then have "map_option gaps (after ?C ?E ?I) = Some [''a'', ''q'']"
    "map_option allQuestions (after ?C ?E ?I) = Some [''q'', ''a'']"
    by (simp_all add: after_def initial_state_def example_config_def)
  with h5 show ?thesis by simp
qed

subsection \<open>A reflect step that finds nothing new\<close>

text \<open>
  Claim C7, as the code has it. In a \<^verbatim>\<open>reflect\<close> iteration in which no proposed
  sub-question survives deduplication, nothing is pushed on the gap queue: the queue
  after the iteration is the queue before it without its front element, which the head
  of the iteration has taken as the current question, so its length is one less (zero
  when it was empty). \<^verbatim>\<open>reflect\<close> is not in the schema of the next request, and it is
  allowed again after any next iteration whose decision is an action of that schema.
\<close>

theorem reflect_nothing_new:
  assumes "totalUsage s + estimatedTokens \<le> tokenBudget cfg"
    and "decision env = Some d" and "action d = ''reflect''"
    and "questionsToAnswer d = Some qs"
    and "dedup_against (allQuestions s) env qs = Some []"
  shows "\<exists>s'. iteration cfg env s = Inr (Continue s') \<and>
           gaps s' = (case gaps s of [] \<Rightarrow> [] | _ # gs \<Rightarrow> gs) \<and>
           length (gaps s') = length (gaps s) - 1 \<and>
           \<not> allowReflect s' \<and>
           ''reflect'' \<notin> set (action_enum (request_schema s')) \<and>
           (\<forall>env' d' f'. iteration cfg env' s' = Inr f' \<and> decision env' = Some d' \<and>
               action d' \<in> set (action_enum (request_schema s')) \<longrightarrow>
               allowReflect (state_of f'))"
proof -
  let ?s' = "(after_oracle cfg env d s)
      \<lparr>diaryContext := diaryContext (after_oracle cfg env d s) @
         [ReflectNothingNew (step (after_oracle cfg env d s)) (currentQuestion cfg s) qs],
       allowReflect := False\<rparr>"
  have it: "iteration cfg env s = Inr (Continue ?s')"
    using assms(3-5)
    by (simp add: iteration_ok[OF assms(1,2)] execute_def do_reflect_def)
  have g: "gaps ?s' = (case gaps s of [] \<Rightarrow> [] | _ # gs \<Rightarrow> gs)" by simp
  have l: "length (gaps ?s') = length (gaps s) - 1" by (simp split: list.splits)
  have r: "\<not> allowReflect ?s'" by simp
  have n: "''reflect'' \<notin> set (action_enum (request_schema ?s'))"
    by (simp add: request_schema_enum)
  have nx: "allowReflect (state_of f')"
    if "iteration cfg env' ?s' = Inr f'" "decision env' = Some d'"
      "action d' \<in> set (action_enum (request_schema ?s'))" for env' d' f'
  proof -
    from that(3) n have "action d' \<noteq> ''reflect''" by metis
    from iteration_reenables_reflect[OF that(1,2) this] show ?thesis .
  qed
  from it g l r n nx show ?thesis by blast
qed

text \<open>
  The theorem at the same iteration.
\<close>

theorem reflect_nothing_new_witness:
  "dedup_against (allQuestions (initial_state (example_config 1000 3) None)) (says_reflect 0 [''q'', ''q''] []) [''q'', ''q''] = Some [] \<and>
   map_option gaps (after (example_config 1000 3) (says_reflect 0 [''q'', ''q''] []) (initial_state (example_config 1000 3) None)) = Some [] \<and>
   map_option allowReflect (after (example_config 1000 3) (says_reflect 0 [''q'', ''q''] []) (initial_state (example_config 1000 3) None)) = Some False \<and>
   map_option action_enum (map_option request_schema (after (example_config 1000 3) (says_reflect 0 [''q'', ''q''] []) (initial_state (example_config 1000 3) None))) =
     Some [''search'', ''answer'']"
proof -
  let ?C = "(example_config 1000 3)"
  let ?E = "says_reflect 0 [''q'', ''q''] []"
  let ?I = "initial_state ?C None"
  let ?D = "(decide ''reflect'')\<lparr>questionsToAnswer := Some [''q'', ''q'']\<rparr>"
  have h1: "totalUsage ?I + estimatedTokens \<le> tokenBudget ?C" by (simp add: run_defs)
  have h2: "decision ?E = Some ?D" by (simp add: run_defs)
  have h3: "action ?D = ''reflect''" by (simp add: run_defs)
  have h4: "questionsToAnswer ?D = Some [''q'', ''q'']" by (simp add: run_defs)
  have h5: "dedup_against (allQuestions ?I) ?E [''q'', ''q''] = Some []" by (simp add: run_defs)
  from reflect_nothing_new[OF h1 h2 h3 h4 h5] obtain s' where
    it: "iteration ?C ?E ?I = Inr (Continue s')"
    and g: "gaps s' = (case gaps ?I of [] \<Rightarrow> [] | _ # gs \<Rightarrow> gs)"
    and r: "\<not> allowReflect s'"
    by blast
  from it have a: "after ?C ?E ?I = Some s'" by (simp add: after_def)
  from g have g': "gaps s' = []" by (simp add: initial_state_def)
  have e: "map_option action_enum (map_option request_schema (after ?C ?E ?I)) =
     Some [''search'', ''answer'']"
    by (simp add: run_defs request_schema_def)
  from h5 a g' r e show ?thesis by simp
qed

text \<open>
  Claim C7 as stated fails at the first iteration of a run: the gap queue holds the
  original question, the oracle proposes the original question twice, nothing survives
  deduplication, and the queue is empty afterwards. The lengths of the gap queue at the
  two step boundaries:
\<close>

theorem reflect_nothing_new_counterexample:
  "map length (map gaps (boundaries (example_config 1000 3) [says_reflect 0 [''q'', ''q''] []] (initial_state (example_config 1000 3) None))) = [1, 0]"
  by (simp add: run_defs)

subsection \<open>Malformed and unexpected decisions\<close>

text \<open>
  Claim C8, as the code has it. A response whose text is not JSON makes the iteration,
  and with it the run, fail with the parser's SyntaxError. The action of a parsed decision is
  not compared with the permitted actions: a decision whose action is none of
  \<^verbatim>\<open>answer\<close>, \<^verbatim>\<open>reflect\<close>, \<^verbatim>\<open>search\<close>, \<^verbatim>\<open>visit\<close> completes the iteration with nothing done
  beyond the head of the iteration, and the outcome of an iteration does not depend on
  the four toggles that made up the schema.
\<close>

theorem malformed_or_unknown_decision:
  "(totalUsage s + estimatedTokens \<le> tokenBudget cfg \<and> generateContent env = Some r \<and>
      parsed r = None \<longrightarrow>
        iteration cfg env s = Inl SyntaxError \<and>
        (loop_condition cfg s \<longrightarrow> loop cfg (env # envs) s = Some (Inl SyntaxError))) \<and>
   (totalUsage s + estimatedTokens \<le> tokenBudget cfg \<and> decision env = Some d \<and>
      action d \<notin> {''answer'', ''reflect'', ''search'', ''visit''} \<longrightarrow>
        iteration cfg env s = Inr (Continue (after_oracle cfg env d s))) \<and>
   iteration cfg env (s\<lparr>allowAnswer := a, allowSearch := b, allowRead := c, allowReflect := e\<rparr>) =
     iteration cfg env s"
proof (intro conjI impI)
  assume a: "totalUsage s + estimatedTokens \<le> tokenBudget cfg \<and> generateContent env = Some r \<and>
      parsed r = None"
  then show 1: "iteration cfg env s = Inl SyntaxError"
    by (simp add: iteration_def ask_oracle_def begin_step_def)
  show "loop cfg (env # envs) s = Some (Inl SyntaxError)" if "loop_condition cfg s"
    using that 1 by simp
next
  assume a: "totalUsage s + estimatedTokens \<le> tokenBudget cfg \<and> decision env = Some d \<and>
      action d \<notin> {''answer'', ''reflect'', ''search'', ''visit''}"
  then have "iteration cfg env s = execute cfg env (currentQuestion cfg s) (after_oracle cfg env d s)"
    by (simp add: iteration_ok)
  also have "\<dots> = Inr (Continue (after_oracle cfg env d s))"
    using a by (simp add: execute_def)
  finally show "iteration cfg env s = Inr (Continue (after_oracle cfg env d s))" .
next
  have "ask_oracle cfg env (begin_step (s\<lparr>allowAnswer := a, allowSearch := b, allowRead := c, allowReflect := e\<rparr>))
      = ask_oracle cfg env (begin_step s)"
    by (simp add: ask_oracle_def begin_step_def trackUsage_def split: option.splits)
  moreover have "currentQuestion cfg (s\<lparr>allowAnswer := a, allowSearch := b, allowRead := c, allowReflect := e\<rparr>)
      = currentQuestion cfg s"
    by (simp add: currentQuestion_def)
  ultimately show "iteration cfg env (s\<lparr>allowAnswer := a, allowSearch := b, allowRead := c, allowReflect := e\<rparr>) =
     iteration cfg env s"
    by (simp only: iteration_def)
qed

text \<open>
  The theorem at the first iteration of a run, for a response that is not JSON and for
  the action \<^verbatim>\<open>dance\<close>.
\<close>

theorem malformed_or_unknown_decision_witness:
  "iteration (example_config 1000 3) (says_garbage 3) (initial_state (example_config 1000 3) None) = Inl SyntaxError \<and>
   loop (example_config 1000 3) [says_garbage 3] (initial_state (example_config 1000 3) None) = Some (Inl SyntaxError) \<and>
   iteration (example_config 1000 3) (oracle_says 0 (decide ''dance'')) (initial_state (example_config 1000 3) None) =
     Inr (Continue (after_oracle (example_config 1000 3) (oracle_says 0 (decide ''dance'')) (decide ''dance'') (initial_state (example_config 1000 3) None)))"
proof -
  let ?C = "(example_config 1000 3)"
  let ?I = "initial_state ?C None"
  let ?G = "says_garbage 3"
  let ?X = "oracle_says 0 (decide ''dance'')"
  have b: "totalUsage ?I + estimatedTokens \<le> tokenBudget ?C" by (simp add: run_defs)
  have g: "generateContent ?G = Some \<lparr>totalTokenCount = Some 3, parsed = None\<rparr>"
    "parsed \<lparr>totalTokenCount = Some 3, parsed = None :: step_action option\<rparr> = None"
    by (simp_all add: says_garbage_def all_fail_def)
  have lc: "loop_condition ?C ?I" by (simp add: run_defs)
  from malformed_or_unknown_decision[of ?I ?C ?G "\<lparr>totalTokenCount = Some 3, parsed = None\<rparr>" "[]"]
    b g lc
  have 1: "iteration ?C ?G ?I = Inl SyntaxError" "loop ?C [?G] ?I = Some (Inl SyntaxError)"
    by blast+
  have d: "decision ?X = Some (decide ''dance'')" by (simp add: run_defs)
  have n: "action (decide ''dance'') \<notin> {''answer'', ''reflect'', ''search'', ''visit''}"
    by (simp add: decide_def)
  from malformed_or_unknown_decision[of ?I ?C ?X _ _ "decide ''dance''"] b d n
  have 2: "iteration ?C ?X ?I = Inr (Continue (after_oracle ?C ?X (decide ''dance'') ?I))"
    by blast
  from 1 2 show ?thesis by simp
qed

text \<open>
  Claim C8 as stated fails. At the first iteration of a run the schema permits
  \<^verbatim>\<open>search\<close>, \<^verbatim>\<open>answer\<close> and \<^verbatim>\<open>reflect\<close>. A decision with the action \<^verbatim>\<open>dance\<close> completes
  the iteration with an empty diary, and a decision with the action \<^verbatim>\<open>visit\<close> is carried
  out.
\<close>

theorem unknown_action_counterexample:
  "action_enum (request_schema (initial_state (example_config 1000 3) None)) = [''search'', ''answer'', ''reflect''] \<and>
   map_option totalStep (after (example_config 1000 3) (oracle_says 0 (decide ''dance'')) (initial_state (example_config 1000 3) None)) = Some 1 \<and>
   map_option diaryContext (after (example_config 1000 3) (oracle_says 0 (decide ''dance'')) (initial_state (example_config 1000 3) None)) = Some [] \<and>
   map_option visitedURLs (after (example_config 1000 3) (says_visit [''u''] []) (initial_state (example_config 1000 3) None)) = Some [''u'']"
  by (simp add: run_defs request_schema_def)

subsection \<open>A failing fetch\<close>

text \<open>
  Claim C9. In a \<^verbatim>\<open>visit\<close> iteration with at least one url that is not yet visited, one
  fetch is issued for every remaining url of the request, all of them before any result
  is handled, and every issued fetch is in the order of completion. If any of the fetches
  throws, whatever the latencies, the whole iteration throws: it has no resulting state,
  and the loop, and with it the run, ends with that error whatever the rest of the
  script, so no knowledge item, visited url or frontier removal of that iteration
  survives. The iteration completes only when every fetch has returned: all the urls are
  then on the visited list, in the order in which their fetches completed, with one
  knowledge item each.
\<close>

theorem failed_fetch_fails_step:
  assumes "totalUsage s + estimatedTokens \<le> tokenBudget cfg"
    and "decision env = Some d" and "action d = ''visit''"
    and "URLTargets d = Some targets"
    and "uniqueURLs targets s \<noteq> []"
  shows "length (issued (uniqueURLs targets s)) = length (uniqueURLs targets s) \<and>
     set (completion_order env (uniqueURLs targets s)) = set (issued (uniqueURLs targets s)) \<and>
     ((\<exists>i < length (uniqueURLs targets s). readUrl env i (uniqueURLs targets s ! i) = None) \<longrightarrow>
        iteration cfg env s = Inl ReadError \<and>
        (loop_condition cfg s \<longrightarrow> loop cfg (env # envs) s = Some (Inl ReadError))) \<and>
     ((\<forall>i < length (uniqueURLs targets s). readUrl env i (uniqueURLs targets s ! i) \<noteq> None) \<longrightarrow>
        (\<exists>s'. iteration cfg env s = Inr (Continue s') \<and>
           visitedURLs s' =
             visitedURLs s @ map snd (completion_order env (uniqueURLs targets s)) \<and>
           length (allKnowledge s') =
             length (allKnowledge s) + length (uniqueURLs targets s)))"
proof (intro conjI impI)
  let ?t = "after_oracle cfg env d s"
  let ?us = "uniqueURLs targets s"
  have u: "uniqueURLs targets ?t = ?us" by (simp add: uniqueURLs_eq)
  from assms(5) have ne: "targets \<noteq> []" by (auto simp: uniqueURLs_eq)
  have it: "iteration cfg env s = do_visit cfg env targets ?t"
    using assms(3,4) ne by (simp add: iteration_ok[OF assms(1,2)] execute_def)
  show "length (issued ?us) = length ?us" by (simp add: issued_def)
  show "set (completion_order env ?us) = set (issued ?us)" by (rule set_completion_order)
  {
    assume "\<exists>i < length ?us. readUrl env i (?us ! i) = None"
    then obtain i where "i < length ?us" "readUrl env i (?us ! i) = None" by blast
    from visit_all_fail[OF this] have "visit_all cfg env ?us ?t = Inl ReadError" .
    with assms(5) show e: "iteration cfg env s = Inl ReadError"
      by (simp add: it do_visit_def u)
    show "loop cfg (env # envs) s = Some (Inl ReadError)" if "loop_condition cfg s"
      using that e by simp
  }
  {
    assume "\<forall>i < length ?us. readUrl env i (?us ! i) \<noteq> None"
    from visit_all_ok[OF this] obtain s1 where s1: "visit_all cfg env ?us ?t = Inr s1" by blast
    let ?s' = "s1\<lparr>diaryContext := diaryContext s1 @ [VisitDone (step s1) targets]\<rparr>"
    from s1 assms(5) have "iteration cfg env s = Inr (Continue ?s')"
      by (simp add: it do_visit_def u)
    moreover from visit_all_visited[OF s1]
    have "visitedURLs ?s' = visitedURLs s @ map snd (completion_order env ?us)"
      "length (allKnowledge ?s') = length (allKnowledge s) + length ?us" by simp_all
    ultimately show "\<exists>s'. iteration cfg env s = Inr (Continue s') \<and>
           visitedURLs s' = visitedURLs s @ map snd (completion_order env ?us) \<and>
           length (allKnowledge s') = length (allKnowledge s) + length ?us"
      by blast
  }
qed

text \<open>
  The theorem at a visit of \<^verbatim>\<open>u\<close> and \<^verbatim>\<open>v\<close>, first with the fetch of \<^verbatim>\<open>v\<close> throwing after
  the fetch of \<^verbatim>\<open>u\<close> has returned: the run ends with the reader's error. Then with both
  fetches returning, that of \<^verbatim>\<open>u\<close> last: \<^verbatim>\<open>v\<close> is on the visited list before \<^verbatim>\<open>u\<close>.
\<close>

theorem failed_fetch_fails_step_witness:
  "uniqueURLs [''u'', ''v''] (initial_state (example_config 1000 3) None) = [''u'', ''v''] \<and>
   completion_order (delayed [''v''] (says_visit [''u'', ''v''] [''v''])) [''u'', ''v''] = [(0, ''u''), (1, ''v'')] \<and>
   readUrl (delayed [''v''] (says_visit [''u'', ''v''] [''v''])) 0 ''u'' = Some (page ''u'') \<and>
   readUrl (delayed [''v''] (says_visit [''u'', ''v''] [''v''])) 1 ''v'' = None \<and>
   iteration (example_config 1000 3) (delayed [''v''] (says_visit [''u'', ''v''] [''v''])) (initial_state (example_config 1000 3) None) = Inl ReadError \<and>
   loop (example_config 1000 3) [delayed [''v''] (says_visit [''u'', ''v''] [''v''])] (initial_state (example_config 1000 3) None) = Some (Inl ReadError) \<and>
   getResponse (example_config 1000 3) None [delayed [''v''] (says_visit [''u'', ''v''] [''v''])] (says_answer 0 ''final'') = Some (Inl ReadError) \<and>
   completion_order (delayed [''u''] (says_visit [''u'', ''v''] [])) [''u'', ''v''] = [(1, ''v''), (0, ''u'')] \<and>
   map_option visitedURLs (after (example_config 1000 3) (delayed [''u''] (says_visit [''u'', ''v''] [])) (initial_state (example_config 1000 3) None)) = Some [''v'', ''u'']"
proof -
  let ?C = "(example_config 1000 3)"
  let ?E = "delayed [''v''] (says_visit [''u'', ''v''] [''v''])"
  let ?S = "delayed [''u''] (says_visit [''u'', ''v''] [])"
  let ?I = "initial_state ?C None"
  let ?D = "(decide ''visit'')\<lparr>URLTargets := Some [''u'', ''v'']\<rparr>"
  have h1: "totalUsage ?I + estimatedTokens \<le> tokenBudget ?C" by (simp add: run_defs)
  have h2: "decision ?E = Some ?D" "decision ?S = Some ?D" by (simp_all add: run_defs)
  have h3: "action ?D = ''visit''" by (simp add: run_defs)
  have h4: "URLTargets ?D = Some [''u'', ''v'']" by (simp add: run_defs)
  have u: "uniqueURLs [''u'', ''v''] ?I = [''u'', ''v'']" by (simp add: run_defs)
  have h5: "uniqueURLs [''u'', ''v''] ?I \<noteq> []" by (simp add: u)
  have c: "completion_order ?E [''u'', ''v''] = [(0, ''u''), (1, ''v'')]"
    "completion_order ?S [''u'', ''v''] = [(1, ''v''), (0, ''u'')]"
    by (simp_all add: run_defs)
  have r: "readUrl ?E 0 ''u'' = Some (page ''u'')" "readUrl ?E 1 ''v'' = None"
    by (simp_all add: run_defs)
  have bad: "\<exists>i < length (uniqueURLs [''u'', ''v''] ?I).
      readUrl ?E i (uniqueURLs [''u'', ''v''] ?I ! i) = None"
    by (rule exI[of _ 1]) (simp add: run_defs)
  have lc: "loop_condition ?C ?I" by (simp add: run_defs)
  from failed_fetch_fails_step[OF h1 h2(1) h3 h4 h5, of "[]"] bad lc
  have e: "iteration ?C ?E ?I = Inl ReadError" "loop ?C [?E] ?I = Some (Inl ReadError)"
    by blast+
  from e(2) have g: "getResponse ?C None [?E] (says_answer 0 ''final'') = Some (Inl ReadError)"
    unfolding getResponse_def by (simp only: option.case sum.case)
  have good: "\<forall>i < length (uniqueURLs [''u'', ''v''] ?I).
      readUrl ?S i (uniqueURLs [''u'', ''v''] ?I ! i) \<noteq> None"
    by (simp add: u says_visit_def delayed_def oracle_says_def all_fail_def less_Suc_eq)
  from failed_fetch_fails_step[OF h1 h2(2) h3 h4 h5, of "[]"] good
  obtain s' where it: "iteration ?C ?S ?I = Inr (Continue s')"
    and v: "visitedURLs s' =
      visitedURLs ?I @ map snd (completion_order ?S (uniqueURLs [''u'', ''v''] ?I))"
    by blast
  have vi: "visitedURLs ?I = []" by (simp add: initial_state_def)
  from v have "visitedURLs s' = [''v'', ''u'']" by (simp add: u c vi)
  with it have a: "map_option visitedURLs (after ?C ?S ?I) = Some [''v'', ''u'']"
    by (simp add: after_def)
  from u c r e g a show ?thesis by simp
qed

subsection \<open>Duplicate urls in one request\<close>

text \<open>
  Claim C10. The urls of a \<^verbatim>\<open>visit\<close> request are filtered against the visited list only,
  as it was before the request: every remaining occurrence of a url is fetched, pushed
  on the visited list when its fetch completes, and gives one knowledge item of kind
  url. A url that is not yet visited is so on the visited list as often as the request
  lists it: listed twice, it is fetched twice, pushed twice and gives two knowledge
  items.
\<close>

theorem visit_duplicates_in_request:
  assumes "totalUsage s + estimatedTokens \<le> tokenBudget cfg"
    and "decision env = Some d" and "action d = ''visit''"
    and "URLTargets d = Some targets"
    and "filter (\<lambda>u. u \<notin> set (visitedURLs s)) targets \<noteq> []"
    and "\<forall>i < length (filter (\<lambda>u. u \<notin> set (visitedURLs s)) targets).
           readUrl env i (filter (\<lambda>u. u \<notin> set (visitedURLs s)) targets ! i) \<noteq> None"
  shows "\<exists>s' ks. iteration cfg env s = Inr (Continue s') \<and>
           length (issued (filter (\<lambda>u. u \<notin> set (visitedURLs s)) targets)) = length (filter (\<lambda>u. u \<notin> set (visitedURLs s)) targets) \<and>
           visitedURLs s' =
             visitedURLs s @ map snd (completion_order env (filter (\<lambda>u. u \<notin> set (visitedURLs s)) targets)) \<and>
           mset (visitedURLs s') = mset (visitedURLs s) + mset (filter (\<lambda>u. u \<notin> set (visitedURLs s)) targets) \<and>
           (\<forall>u. u \<notin> set (visitedURLs s) \<longrightarrow>
              count_list (visitedURLs s') u = count_list targets u) \<and>
           allKnowledge s' = allKnowledge s @ ks \<and>
           map k_type ks = replicate (length (filter (\<lambda>u. u \<notin> set (visitedURLs s)) targets)) URL"
proof -
  let ?t = "after_oracle cfg env d s"
  let ?us = "filter (\<lambda>u. u \<notin> set (visitedURLs s)) targets"
  have u: "uniqueURLs targets ?t = ?us" by (simp add: uniqueURLs_eq)
  from assms(5) have ne: "targets \<noteq> []" by auto
  from visit_all_ok[of ?us env cfg ?t] assms(6)
  obtain s1 where s1: "visit_all cfg env ?us ?t = Inr s1" by auto
  let ?s' = "s1\<lparr>diaryContext := diaryContext s1 @ [VisitDone (step s1) targets]\<rparr>"
  have "do_visit cfg env targets ?t = Inr (Continue ?s')"
    using assms(5) s1 by (simp add: do_visit_def u)
  then have it: "iteration cfg env s = Inr (Continue ?s')"
    using assms(3,4) ne by (simp add: iteration_ok[OF assms(1,2)] execute_def)
  have li: "length (issued ?us) = length ?us" by (simp add: issued_def)
  from visit_all_visited(1)[OF s1]
  have v: "visitedURLs ?s' = visitedURLs s @ map snd (completion_order env ?us)" by simp
  have m: "mset (visitedURLs ?s') = mset (visitedURLs s) + mset ?us"
    by (simp only: v mset_append mset_completion_order)
  have c: "count_list (visitedURLs ?s') x = count_list targets x"
    if "x \<notin> set (visitedURLs s)" for x
  proof -
    have "count_list (visitedURLs ?s') x = count (mset (visitedURLs ?s')) x"
      by (simp only: count_mset)
    also have "\<dots> = count_list (visitedURLs s) x + count_list ?us x"
      by (simp only: m plus_multiset.rep_eq count_mset)
    also have "\<dots> = count_list targets x"
      using that by (simp add: count_list_filter)
    finally show ?thesis .
  qed
  from visit_all_knowledge[OF s1] obtain ks where
    k: "allKnowledge ?s' = allKnowledge s @ ks" "map k_type ks = replicate (length ?us) URL"
    by auto
  from it li v m c k show ?thesis by blast
qed

text \<open>
  The theorem at the first iteration of a run, for a request that lists \<^verbatim>\<open>u\<close> twice, and
  for a request of \<^verbatim>\<open>u\<close> and \<^verbatim>\<open>v\<close> in which the fetch of \<^verbatim>\<open>u\<close> returns last.
\<close>

theorem visit_duplicates_in_request_witness:
  "map_option visitedURLs (after (example_config 1000 3) (says_visit [''u'', ''u''] []) (initial_state (example_config 1000 3) None)) = Some [''u'', ''u''] \<and>
   map_option (map k_type) (map_option allKnowledge (after (example_config 1000 3) (says_visit [''u'', ''u''] []) (initial_state (example_config 1000 3) None))) = Some [URL, URL] \<and>
   map_option visitedURLs (after (example_config 1000 3) (delayed [''u''] (says_visit [''u'', ''v''] [])) (initial_state (example_config 1000 3) None)) = Some [''v'', ''u'']"
proof -
  let ?C = "(example_config 1000 3)"
  let ?E = "says_visit [''u'', ''u''] []"
  let ?S = "delayed [''u''] (says_visit [''u'', ''v''] [])"
  let ?I = "initial_state ?C None"
  let ?D = "(decide ''visit'')\<lparr>URLTargets := Some [''u'', ''u'']\<rparr>"
  let ?D2 = "(decide ''visit'')\<lparr>URLTargets := Some [''u'', ''v'']\<rparr>"
  have v: "visitedURLs ?I = []" "allKnowledge ?I = []" by (simp_all add: initial_state_def)
  have h1: "totalUsage ?I + estimatedTokens \<le> tokenBudget ?C" by (simp add: run_defs)
  have h2: "decision ?E = Some ?D" by (simp add: run_defs)
  have h3: "action ?D = ''visit''" by (simp add: run_defs)
  have h4: "URLTargets ?D = Some [''u'', ''u'']" by (simp add: run_defs)
  have h5: "filter (\<lambda>u. u \<notin> set (visitedURLs ?I)) [''u'', ''u''] \<noteq> []" by (simp add: v)
  have h6: "\<forall>i < length (filter (\<lambda>u. u \<notin> set (visitedURLs ?I)) [''u'', ''u'']).
           readUrl ?E i (filter (\<lambda>u. u \<notin> set (visitedURLs ?I)) [''u'', ''u''] ! i) \<noteq> None"
    by (simp add: v says_visit_def oracle_says_def all_fail_def less_Suc_eq)
  from visit_duplicates_in_request[OF h1 h2 h3 h4 h5 h6] obtain s' ks where
    it: "iteration ?C ?E ?I = Inr (Continue s')"
    and vs: "visitedURLs s' = visitedURLs ?I @
        map snd (completion_order ?E (filter (\<lambda>u. u \<notin> set (visitedURLs ?I)) [''u'', ''u'']))"
    and ak: "allKnowledge s' = allKnowledge ?I @ ks"
    and kt: "map k_type ks =
             replicate (length (filter (\<lambda>u. u \<notin> set (visitedURLs ?I)) [''u'', ''u''])) URL"
    by blast
  from it have a: "after ?C ?E ?I = Some s'" by (simp add: after_def)
  from vs have vs': "visitedURLs s' = [''u'', ''u'']" by (simp add: v run_defs)
  from kt have "map k_type ks = [URL, URL]" by (simp add: v)
  with ak have kk: "map k_type (allKnowledge s') = [URL, URL]" by (simp add: v)
  have g2: "decision ?S = Some ?D2" by (simp add: run_defs)
  have g3: "action ?D2 = ''visit''" by (simp add: run_defs)
  have g4: "URLTargets ?D2 = Some [''u'', ''v'']" by (simp add: run_defs)
  have g5: "filter (\<lambda>u. u \<notin> set (visitedURLs ?I)) [''u'', ''v''] \<noteq> []" by (simp add: v)
  have g6: "\<forall>i < length (filter (\<lambda>u. u \<notin> set (visitedURLs ?I)) [''u'', ''v'']).
           readUrl ?S i (filter (\<lambda>u. u \<notin> set (visitedURLs ?I)) [''u'', ''v''] ! i) \<noteq> None"
    by (simp add: v says_visit_def delayed_def oracle_says_def all_fail_def less_Suc_eq)
  from visit_duplicates_in_request[OF h1 g2 g3 g4 g5 g6] obtain t' where
    it2: "iteration ?C ?S ?I = Inr (Continue t')"
    and vt: "visitedURLs t' = visitedURLs ?I @
        map snd (completion_order ?S (filter (\<lambda>u. u \<notin> set (visitedURLs ?I)) [''u'', ''v'']))"
    by blast
  from it2 have a2: "after ?C ?S ?I = Some t'" by (simp add: after_def)
  from vt have vt': "visitedURLs t' = [''v'', ''u'']" by (simp add: v run_defs)
  from a vs' kk a2 vt' show ?thesis by simp
qed

end
